theory Spec2Isabelle
  imports Main
begin

section \<open>The property graph behind \<open>SocialNetwork\<close>\<close>

text \<open>
  \<open>network.py\<close> keeps no data of its own: every method of \<open>SocialNetwork\<close> sends one
  Cypher statement to the session and returns what the statement yields. The model
  therefore has two layers. The graph is the state the statements act on: a list of nodes
  (a node's identity is its position) and a list of relationships (a relationship's
  identity is its position, too). Every method is a function on that state which reads
  the statement clause by clause: \<open>MATCH\<close> produces rows, \<open>CREATE\<close> appends once per row,
  \<open>MERGE\<close> matches or creates once per row, \<open>RETURN\<close> with an aggregate groups by the
  other returned expressions, \<open>ORDER BY\<close> sorts and \<open>LIMIT\<close> truncates.

  A \<open>User\<close> node carries the five properties written by \<open>create_user\<close>, an \<open>Interest\<close>
  node the one written by \<open>add_interest\<close>. The values of \<open>datetime()\<close> and of
  \<open>datetime.now().isoformat()\<close> are inputs of the model.
\<close>

datatype node =
    is_User: User (uid: string) (uname: string) (uage: int) (ulocation: string) (ucreated_at: nat)
  | is_Interest: Interest (iname: string)

datatype rel =
    is_FRIENDS_WITH: FRIENDS_WITH (since: string)
  | is_INTERESTED_IN: INTERESTED_IN

record edge =
  src :: nat
  kind :: rel
  dst :: nat

record graph =
  nodes :: "node list"
  edges :: "edge list"

definition empty_graph :: graph where
  "empty_graph = \<lparr>nodes = [], edges = []\<rparr>"

text \<open>
  The error kinds. \<open>Neo4jError\<close> is what the driver raises when the server fails a
  statement; \<open>OverflowError\<close> is what it raises, before anything is sent, when an integer
  parameter does not fit the 64 bits of the wire format; \<open>NotFound\<close> and \<open>DuplicateKey\<close>
  are the kinds the specification names. A method returns \<open>Inl\<close> where the Python raises
  and \<open>Inr\<close> where it returns.
\<close>

datatype error = NotFound | DuplicateKey | Neo4jError | OverflowError

text \<open>
  Python integers are unbounded; the driver packs an integer parameter as a signed
  64-bit value and refuses any other.
\<close>

definition int64 :: "int \<Rightarrow> bool" where
  "int64 n = (- (2 ^ 63) \<le> n \<and> n < 2 ^ 63)"

subsection \<open>Pattern parts shared by the statements\<close>

text \<open>The property \<open>name\<close> of a node, as \<open>u.name\<close>, \<open>i.name\<close> and \<open>node.name\<close> read it.\<close>

fun name_of :: "node \<Rightarrow> string" where
  "name_of (User i n a l c) = n"
| "name_of (Interest n) = n"

text \<open>\<open>(u:User {id: $user_id})\<close>: the nodes labelled \<open>User\<close> whose \<open>id\<close> is the parameter.\<close>

fun has_user_id :: "string \<Rightarrow> node \<Rightarrow> bool" where
  "has_user_id u (User i n a l c) = (i = u)"
| "has_user_id u (Interest n) = False"

definition match_user :: "graph \<Rightarrow> string \<Rightarrow> nat list" where
  "match_user g u = [i \<leftarrow> [0..<length (nodes g)]. has_user_id u (nodes g ! i)]"

text \<open>\<open>(i:Interest {name: $interest})\<close>.\<close>

fun has_interest_name :: "string \<Rightarrow> node \<Rightarrow> bool" where
  "has_interest_name x (Interest n) = (n = x)"
| "has_interest_name x (User i n a l c) = False"

definition match_interest :: "graph \<Rightarrow> string \<Rightarrow> nat list" where
  "match_interest g x = [i \<leftarrow> [0..<length (nodes g)]. has_interest_name x (nodes g ! i)]"

text \<open>
  \<open>(a)-[:FRIENDS_WITH]->(b)\<close> from a bound \<open>a\<close>: one row per relationship, given as the
  relationship's position and its end node. \<open>friends_of\<close> keeps the end nodes only, and
  \<open>has_friend\<close> is the pattern predicate \<open>(a)-[:FRIENDS_WITH]->(b)\<close> of a \<open>WHERE\<close>.
\<close>

definition friend_steps :: "graph \<Rightarrow> nat \<Rightarrow> (nat \<times> nat) list" where
  "friend_steps g a =
     [(k, dst (edges g ! k)). k \<leftarrow> [0..<length (edges g)],
        src (edges g ! k) = a \<and> is_FRIENDS_WITH (kind (edges g ! k))]"

definition friends_of :: "graph \<Rightarrow> nat \<Rightarrow> nat list" where
  "friends_of g a = map snd (friend_steps g a)"

definition has_friend :: "graph \<Rightarrow> nat \<Rightarrow> nat \<Rightarrow> bool" where
  "has_friend g a b = (b \<in> set (friends_of g a))"

text \<open>\<open>(u)-[:INTERESTED_IN]->(i)\<close> from a bound \<open>u\<close>.\<close>

definition interests_of :: "graph \<Rightarrow> nat \<Rightarrow> nat list" where
  "interests_of g a =
     [dst e. e \<leftarrow> edges g, src e = a \<and> is_INTERESTED_IN (kind e)]"

section \<open>The mutating methods\<close>

text \<open>
  \<open>create_user\<close>: a single \<open>CREATE (u:User {...})\<close>. The parameter \<open>age\<close> is an integer:
  outside the 64-bit range the driver raises and the statement is not sent. Otherwise
  \<open>CREATE\<close> looks nothing up; the statement appends one node whatever the graph holds,
  and the method declares no constraint anywhere.
\<close>

definition create_user :: "graph \<Rightarrow> string \<Rightarrow> string \<Rightarrow> int \<Rightarrow> string \<Rightarrow> nat \<Rightarrow> error + graph" where
  "create_user g user_id name age location now =
     (if int64 age then Inr (g\<lparr>nodes := nodes g @ [User user_id name age location now]\<rparr>)
      else Inl OverflowError)"

text \<open>
  \<open>add_friendship\<close>: the two \<open>MATCH\<close> clauses give one row per pair of matching nodes
  (none when either id matches nothing), and the two \<open>CREATE\<close> clauses append both
  directions for every row, with the same \<open>since\<close>. A missing \<open>since\<close> is replaced by
  the current time before the statement is sent.
\<close>

definition friendship_rows :: "graph \<Rightarrow> string \<Rightarrow> string \<Rightarrow> (nat \<times> nat) list" where
  "friendship_rows g user1_id user2_id =
     [(u1, u2). u1 \<leftarrow> match_user g user1_id, u2 \<leftarrow> match_user g user2_id]"

definition add_friendship :: "graph \<Rightarrow> string \<Rightarrow> string \<Rightarrow> string option \<Rightarrow> string \<Rightarrow> error + graph" where
  "add_friendship g user1_id user2_id since_opt now =
     (let s = (case since_opt of None \<Rightarrow> now | Some x \<Rightarrow> x);
          rows = friendship_rows g user1_id user2_id
      in Inr (g\<lparr>edges := edges g
                  @ map (\<lambda>(u1, u2). \<lparr>src = u1, kind = FRIENDS_WITH s, dst = u2\<rparr>) rows
                  @ map (\<lambda>(u1, u2). \<lparr>src = u2, kind = FRIENDS_WITH s, dst = u1\<rparr>) rows\<rparr>))"

text \<open>
  \<open>add_interest\<close>: \<open>MATCH\<close> gives the rows of the user; \<open>MERGE\<close> runs once per row and
  sees what it created for an earlier row, so it binds every \<open>Interest\<close> node of that
  name, or creates one when there is none; \<open>CREATE\<close> then appends one relationship per
  resulting row. \<open>merge_interest\<close> returns the graph and the rows \<open>(u, i)\<close>.
\<close>

fun merge_interest :: "graph \<Rightarrow> string \<Rightarrow> nat list \<Rightarrow> graph \<times> (nat \<times> nat) list" where
  "merge_interest g x [] = (g, [])"
| "merge_interest g x (u # us) =
     (let g1 = (if match_interest g x = [] then g\<lparr>nodes := nodes g @ [Interest x]\<rparr> else g);
          (g2, rows) = merge_interest g1 x us
      in (g2, map (\<lambda>i. (u, i)) (match_interest g1 x) @ rows))"

definition add_interest :: "graph \<Rightarrow> string \<Rightarrow> string \<Rightarrow> error + graph" where
  "add_interest g user_id interest =
     (let (g1, rows) = merge_interest g interest (match_user g user_id)
      in Inr (g1\<lparr>edges := edges g1
                   @ map (\<lambda>(u, i). \<lparr>src = u, kind = INTERESTED_IN, dst = i\<rparr>) rows\<rparr>))"

text \<open>\<open>clear_database\<close>: \<open>MATCH (n) DETACH DELETE n\<close> removes every node and relationship.\<close>

definition clear_database :: "graph \<Rightarrow> error + graph" where
  "clear_database g = Inr empty_graph"

text \<open>
  A client is a sequence of calls of the mutating methods, as \<open>create_demo_network\<close>
  is; an exception would end it.
\<close>

datatype call =
    CreateUser string string int string nat
  | AddFriendship string string "string option" string
  | AddInterest string string
  | ClearDatabase

fun exec :: "graph \<Rightarrow> call \<Rightarrow> error + graph" where
  "exec g (CreateUser i n a l t) = create_user g i n a l t"
| "exec g (AddFriendship a b s t) = add_friendship g a b s t"
| "exec g (AddInterest u x) = add_interest g u x"
| "exec g ClearDatabase = clear_database g"

fun run :: "graph \<Rightarrow> call list \<Rightarrow> error + graph" where
  "run g [] = Inr g"
| "run g (c # cs) = (case exec g c of Inl e \<Rightarrow> Inl e | Inr g' \<Rightarrow> run g' cs)"

section \<open>The queries\<close>

subsection \<open>\<open>find_friends_of_friends\<close>\<close>

text \<open>
  The pattern \<open>(user:User {id})-[:FRIENDS_WITH]->(friend)-[:FRIENDS_WITH]->(fof:User)\<close>
  gives one row per pair of relationships; within one pattern the two relationships are
  different ones. \<open>WHERE\<close> drops the rows whose \<open>fof\<close> is the user or a friend of the
  user. \<open>RETURN\<close> groups the rows by the three returned properties of \<open>fof\<close> and counts
  the different \<open>friend\<close> nodes of each group; \<open>ORDER BY ... DESC\<close> sorts the groups
  (the order among equal counts is the server's; the model keeps the order of the groups)
  and \<open>LIMIT 10\<close> keeps the first ten.
\<close>

record fof_record =
  user_id :: string
  name :: string
  location :: string
  mutual_friends :: nat

definition two_hops :: "graph \<Rightarrow> nat \<Rightarrow> (nat \<times> nat) list" where
  "two_hops g u =
     [(f, c). (k1, f) \<leftarrow> friend_steps g u, (k2, c) \<leftarrow> friend_steps g f, k1 \<noteq> k2]"

definition fof_rows :: "graph \<Rightarrow> string \<Rightarrow> (nat \<times> nat \<times> nat) list" where
  "fof_rows g uid' =
     [(u, f, c). u \<leftarrow> match_user g uid', (f, c) \<leftarrow> two_hops g u,
        is_User (nodes g ! c) \<and> u \<noteq> c \<and> \<not> has_friend g u c]"

definition fof_key :: "graph \<Rightarrow> nat \<Rightarrow> string \<times> string \<times> string" where
  "fof_key g c = (uid (nodes g ! c), uname (nodes g ! c), ulocation (nodes g ! c))"

definition fof_groups :: "graph \<Rightarrow> string \<Rightarrow> fof_record list" where
  "fof_groups g uid' =
     (let rows = fof_rows g uid'
      in map (\<lambda>(i, n, l).
                \<lparr>user_id = i, name = n, location = l,
                 mutual_friends =
                   length (remdups [f. (u, f, c) \<leftarrow> rows, fof_key g c = (i, n, l)])\<rparr>)
             (remdups (map (\<lambda>(u, f, c). fof_key g c) rows)))"

definition order_by_desc :: "('a \<Rightarrow> nat) \<Rightarrow> 'a list \<Rightarrow> 'a list" where
  "order_by_desc f xs = sort_key (\<lambda>x. - int (f x)) xs"

definition find_friends_of_friends :: "graph \<Rightarrow> string \<Rightarrow> fof_record list" where
  "find_friends_of_friends g uid' = take 10 (order_by_desc mutual_friends (fof_groups g uid'))"

subsection \<open>\<open>find_shortest_connection_path\<close>\<close>

text \<open>
  \<open>shortestPath((u1)-[:FRIENDS_WITH*]-(u2))\<close> searches breadth first from \<open>u1\<close>, a
  relationship being usable in either direction. \<open>bfs\<close> keeps the nodes seen so far and
  the current level as the list of paths (newest node first) that reached it; a level
  that holds the target ends the search, a level that reaches nothing new ends it
  without a path. The function does not handle a pattern whose two ends are the same
  node: the server fails the statement when its setting
  \<open>forbid_shortestpath_common_nodes\<close> is on, as it is by default, and gives no path for
  such a row when it is off; the setting is a parameter of the model. \<open>RETURN\<close> maps the
  nodes of the path to their names, and \<open>single()\<close> gives the first record or \<open>None\<close>.
\<close>

definition friend_adj :: "graph \<Rightarrow> nat \<Rightarrow> nat list" where
  "friend_adj g a =
     [if src e = a then dst e else src e.
        e \<leftarrow> edges g, is_FRIENDS_WITH (kind e) \<and> (src e = a \<or> dst e = a)]"

fun expand :: "graph \<Rightarrow> nat list \<Rightarrow> nat list list \<Rightarrow> nat list list" where
  "expand g seen [] = []"
| "expand g seen (p # ps) =
     (let ws = remdups [w \<leftarrow> friend_adj g (hd p). w \<notin> set seen]
      in map (\<lambda>w. w # p) ws @ expand g (seen @ ws) ps)"

definition endpoints :: "graph \<Rightarrow> nat set" where
  "endpoints g = set (map src (edges g)) \<union> set (map dst (edges g))"

function bfs :: "graph \<Rightarrow> nat \<Rightarrow> nat list \<Rightarrow> nat list list \<Rightarrow> nat list option" where
  "bfs g t seen level =
     (case find (\<lambda>p. hd p = t) level of
        Some p \<Rightarrow> Some (rev p)
      | None \<Rightarrow>
          (let nxt = expand g seen level
           in if nxt = [] then None else bfs g t (seen @ map hd nxt) nxt))"
  by pat_completeness auto
termination
proof (relation "measure (\<lambda>(g, t, seen, level). card (endpoints g - set seen))")
  show "wf (measure (\<lambda>(g, t, seen, level). card (endpoints g - set seen)))"
    by simp
next
  fix g :: graph and t :: nat and seen :: "nat list" and level nxt :: "nat list list"
  assume nxt: "nxt = expand g seen level" and ne: "nxt \<noteq> []"
  have adj: "set (friend_adj g a) \<subseteq> endpoints g" for a
    by (auto simp: friend_adj_def endpoints_def)
  have heads: "hd ` set (expand g s l) \<subseteq> endpoints g - set s" for s l
  proof (induction l arbitrary: s)
    case Nil
    show ?case by simp
  next
    case (Cons p ps)
    have "hd ` set (expand g (s @ remdups [w \<leftarrow> friend_adj g (hd p). w \<notin> set s]) ps)
            \<subseteq> endpoints g - set s"
      using Cons.IH [of "s @ remdups [w \<leftarrow> friend_adj g (hd p). w \<notin> set s]"] by auto
    moreover have "hd ` (\<lambda>w. w # p) ` set (remdups [w \<leftarrow> friend_adj g (hd p). w \<notin> set s])
            \<subseteq> endpoints g - set s"
      using adj [of "hd p"] by auto
    ultimately show ?case
      by (simp add: Let_def image_Un)
  qed
  obtain q where q: "q \<in> set nxt"
    using ne by (cases nxt) auto
  have sub: "hd ` set nxt \<subseteq> endpoints g - set seen"
    using heads nxt by simp
  have fin: "finite (endpoints g)"
    by (simp add: endpoints_def)
  have "endpoints g - set (seen @ map hd nxt) \<subset> endpoints g - set seen"
    using q sub by auto
  then have "card (endpoints g - set (seen @ map hd nxt)) < card (endpoints g - set seen)"
    using fin by (intro psubset_card_mono) auto
  then show "((g, t, seen @ map hd nxt, nxt), (g, t, seen, level))
               \<in> measure (\<lambda>(g, t, seen, level). card (endpoints g - set seen))"
    by simp
qed

declare bfs.simps [simp del]

definition shortest_path_names :: "graph \<Rightarrow> nat \<Rightarrow> nat \<Rightarrow> string list list" where
  "shortest_path_names g u1 u2 =
     (case bfs g u2 [u1] [[u1]] of
        None \<Rightarrow> []
      | Some p \<Rightarrow> [map (\<lambda>v. name_of (nodes g ! v)) p])"

definition find_shortest_connection_path ::
  "bool \<Rightarrow> graph \<Rightarrow> string \<Rightarrow> string \<Rightarrow> error + string list option" where
  "find_shortest_connection_path forbid_common_nodes g user1_id user2_id =
     (let ends = friendship_rows g user1_id user2_id
      in if forbid_common_nodes \<and> (\<exists>(u1, u2) \<in> set ends. u1 = u2) then Inl Neo4jError
         else (case concat (map (\<lambda>(u1, u2). if u1 = u2 then [] else shortest_path_names g u1 u2)
                              ends) of
                 [] \<Rightarrow> Inr None
               | record # rest \<Rightarrow> Inr (Some record)))"

subsection \<open>\<open>find_communities\<close>\<close>

text \<open>
  \<open>MATCH (i:Interest)<-[:INTERESTED_IN]-(u:User)\<close> gives one row per relationship;
  \<open>WITH i, COLLECT(u.name), COUNT(u)\<close> groups the rows by the node \<open>i\<close>, collecting a
  name and counting one for every row of the group; \<open>WHERE\<close> keeps the groups that reach
  the threshold and \<open>ORDER BY size DESC\<close> sorts them. The threshold is an integer
  parameter: outside the 64-bit range the driver raises and the statement is not sent.
\<close>

record community =
  interest :: string
  csize :: nat
  members :: "string list"

definition community_rows :: "graph \<Rightarrow> (nat \<times> nat) list" where
  "community_rows g =
     [(i, src e). i \<leftarrow> [0..<length (nodes g)], is_Interest (nodes g ! i),
        e \<leftarrow> edges g, is_INTERESTED_IN (kind e) \<and> dst e = i \<and> is_User (nodes g ! src e)]"

definition community_of :: "graph \<Rightarrow> nat \<Rightarrow> community" where
  "community_of g i =
     (let ms = [name_of (nodes g ! u). (j, u) \<leftarrow> community_rows g, j = i]
      in \<lparr>interest = name_of (nodes g ! i), csize = length ms, members = ms\<rparr>)"

definition community_records :: "graph \<Rightarrow> int \<Rightarrow> community list" where
  "community_records g min_connections =
     order_by_desc csize
       [c \<leftarrow> map (community_of g) (remdups (map fst (community_rows g))).
          min_connections \<le> int (csize c)]"

definition find_communities :: "graph \<Rightarrow> int \<Rightarrow> error + community list" where
  "find_communities g min_connections =
     (if int64 min_connections then Inr (community_records g min_connections)
      else Inl OverflowError)"

subsection \<open>\<open>get_network_statistics\<close>\<close>

text \<open>
  \<open>MATCH\<close> binds the user; each \<open>OPTIONAL MATCH\<close> multiplies a row by its matches, or
  extends it by one null when there is none. \<open>RETURN\<close> groups by \<open>user.name\<close> and counts
  the different non-null values of each column; \<open>single()\<close> gives the first record, and
  the method returns the empty dictionary (\<open>None\<close> here) when there is no record.
\<close>

record statistics =
  stat_name :: string
  friend_count :: nat
  interest_count :: nat
  potential_connections :: nat

definition optional_match :: "'a list \<Rightarrow> 'a option list" where
  "optional_match xs = (if xs = [] then [None] else map Some xs)"

definition second_hops :: "graph \<Rightarrow> nat \<Rightarrow> nat list" where
  "second_hops g u = [c. (f, c) \<leftarrow> two_hops g u, \<not> has_friend g u c \<and> u \<noteq> c]"

definition statistics_rows ::
  "graph \<Rightarrow> string \<Rightarrow> (nat \<times> nat option \<times> nat option \<times> nat option) list" where
  "statistics_rows g uid' =
     [(u, f, i, c). u \<leftarrow> match_user g uid',
        f \<leftarrow> optional_match (friends_of g u),
        i \<leftarrow> optional_match (interests_of g u),
        c \<leftarrow> optional_match (second_hops g u)]"

definition count_distinct :: "'a option list \<Rightarrow> nat" where
  "count_distinct xs = length (remdups (concat (map (\<lambda>x. case x of None \<Rightarrow> [] | Some v \<Rightarrow> [v]) xs)))"

definition statistics_records :: "graph \<Rightarrow> string \<Rightarrow> statistics list" where
  "statistics_records g uid' =
     (let rows = statistics_rows g uid'
      in map (\<lambda>n.
                (let grp = [r \<leftarrow> rows. name_of (nodes g ! fst r) = n]
                 in \<lparr>stat_name = n,
                     friend_count = count_distinct (map (\<lambda>(u, f, i, c). f) grp),
                     interest_count = count_distinct (map (\<lambda>(u, f, i, c). i) grp),
                     potential_connections = count_distinct (map (\<lambda>(u, f, i, c). c) grp)\<rparr>))
             (remdups (map (\<lambda>r. name_of (nodes g ! fst r)) rows)))"

definition get_network_statistics :: "graph \<Rightarrow> string \<Rightarrow> statistics option" where
  "get_network_statistics g uid' =
     (case statistics_records g uid' of [] \<Rightarrow> None | record # rest \<Rightarrow> Some record)"

section \<open>Example graphs\<close>

text \<open>Small clients, used where a statement is evaluated on a concrete graph.\<close>

definition one_user :: graph where
  "one_user = \<lparr>nodes = [User ''alice'' ''Alice Johnson'' 28 ''New York'' 0], edges = []\<rparr>"

definition two_users :: graph where
  "two_users = \<lparr>nodes = [User ''alice'' ''Alice Johnson'' 28 ''New York'' 0,
                          User ''bob'' ''Bob Smith'' 32 ''San Francisco'' 1], edges = []\<rparr>"

definition self_friend :: graph where
  "self_friend =
     \<lparr>nodes = [User ''alice'' ''Alice Johnson'' 28 ''New York'' 0],
      edges = [\<lparr>src = 0, kind = FRIENDS_WITH ''2024-01-01'', dst = 0\<rparr>,
               \<lparr>src = 0, kind = FRIENDS_WITH ''2024-01-01'', dst = 0\<rparr>]\<rparr>"

definition twice_friends :: graph where
  "twice_friends =
     \<lparr>nodes = [User ''alice'' ''Alice Johnson'' 28 ''New York'' 0,
               User ''bob'' ''Bob Smith'' 32 ''San Francisco'' 1],
      edges = [\<lparr>src = 0, kind = FRIENDS_WITH ''2024-01-01'', dst = 1\<rparr>,
               \<lparr>src = 1, kind = FRIENDS_WITH ''2024-01-01'', dst = 0\<rparr>,
               \<lparr>src = 0, kind = FRIENDS_WITH ''2024-02-02'', dst = 1\<rparr>,
               \<lparr>src = 1, kind = FRIENDS_WITH ''2024-02-02'', dst = 0\<rparr>]\<rparr>"

definition two_friends :: graph where
  "two_friends =
     \<lparr>nodes = [User ''alice'' ''Alice Johnson'' 28 ''New York'' 0,
               User ''bob'' ''Bob Smith'' 32 ''San Francisco'' 1],
      edges = [\<lparr>src = 0, kind = FRIENDS_WITH ''2024-01-01'', dst = 1\<rparr>,
               \<lparr>src = 1, kind = FRIENDS_WITH ''2024-01-01'', dst = 0\<rparr>]\<rparr>"



definition star_calls :: "call list" where
  "star_calls =
     [CreateUser ''u0'' ''Ann'' 30 ''Oslo'' 0,
      CreateUser ''u1'' ''Ben'' 30 ''Oslo'' 1,
      CreateUser ''c01'' ''C01'' 30 ''Oslo'' 2,
      CreateUser ''c02'' ''C02'' 30 ''Oslo'' 3,
      CreateUser ''c03'' ''C03'' 30 ''Oslo'' 4,
      CreateUser ''c04'' ''C04'' 30 ''Oslo'' 5,
      CreateUser ''c05'' ''C05'' 30 ''Oslo'' 6,
      CreateUser ''c06'' ''C06'' 30 ''Oslo'' 7,
      CreateUser ''c07'' ''C07'' 30 ''Oslo'' 8,
      CreateUser ''c08'' ''C08'' 30 ''Oslo'' 9,
      CreateUser ''c09'' ''C09'' 30 ''Oslo'' 10,
      CreateUser ''c10'' ''C10'' 30 ''Oslo'' 11,
      CreateUser ''c11'' ''C11'' 30 ''Oslo'' 12,
      AddFriendship ''u0'' ''u1'' (Some ''s'') ''t'',
      AddFriendship ''u1'' ''c01'' (Some ''s'') ''t'',
      AddFriendship ''u1'' ''c02'' (Some ''s'') ''t'',
      AddFriendship ''u1'' ''c03'' (Some ''s'') ''t'',
      AddFriendship ''u1'' ''c04'' (Some ''s'') ''t'',
      AddFriendship ''u1'' ''c05'' (Some ''s'') ''t'',
      AddFriendship ''u1'' ''c06'' (Some ''s'') ''t'',
      AddFriendship ''u1'' ''c07'' (Some ''s'') ''t'',
      AddFriendship ''u1'' ''c08'' (Some ''s'') ''t'',
      AddFriendship ''u1'' ''c09'' (Some ''s'') ''t'',
      AddFriendship ''u1'' ''c10'' (Some ''s'') ''t'',
      AddFriendship ''u1'' ''c11'' (Some ''s'') ''t'']"

definition star :: graph where
  "star =
     \<lparr>nodes = [User ''u0'' ''Ann'' 30 ''Oslo'' 0,
               User ''u1'' ''Ben'' 30 ''Oslo'' 1,
               User ''c01'' ''C01'' 30 ''Oslo'' 2,
               User ''c02'' ''C02'' 30 ''Oslo'' 3,
               User ''c03'' ''C03'' 30 ''Oslo'' 4,
               User ''c04'' ''C04'' 30 ''Oslo'' 5,
               User ''c05'' ''C05'' 30 ''Oslo'' 6,
               User ''c06'' ''C06'' 30 ''Oslo'' 7,
               User ''c07'' ''C07'' 30 ''Oslo'' 8,
               User ''c08'' ''C08'' 30 ''Oslo'' 9,
               User ''c09'' ''C09'' 30 ''Oslo'' 10,
               User ''c10'' ''C10'' 30 ''Oslo'' 11,
               User ''c11'' ''C11'' 30 ''Oslo'' 12],
      edges = [\<lparr>src = 0, kind = FRIENDS_WITH ''s'', dst = 1\<rparr>,
               \<lparr>src = 1, kind = FRIENDS_WITH ''s'', dst = 0\<rparr>,
               \<lparr>src = 1, kind = FRIENDS_WITH ''s'', dst = 2\<rparr>,
               \<lparr>src = 2, kind = FRIENDS_WITH ''s'', dst = 1\<rparr>,
               \<lparr>src = 1, kind = FRIENDS_WITH ''s'', dst = 3\<rparr>,
               \<lparr>src = 3, kind = FRIENDS_WITH ''s'', dst = 1\<rparr>,
               \<lparr>src = 1, kind = FRIENDS_WITH ''s'', dst = 4\<rparr>,
               \<lparr>src = 4, kind = FRIENDS_WITH ''s'', dst = 1\<rparr>,
               \<lparr>src = 1, kind = FRIENDS_WITH ''s'', dst = 5\<rparr>,
               \<lparr>src = 5, kind = FRIENDS_WITH ''s'', dst = 1\<rparr>,
               \<lparr>src = 1, kind = FRIENDS_WITH ''s'', dst = 6\<rparr>,
               \<lparr>src = 6, kind = FRIENDS_WITH ''s'', dst = 1\<rparr>,
               \<lparr>src = 1, kind = FRIENDS_WITH ''s'', dst = 7\<rparr>,
               \<lparr>src = 7, kind = FRIENDS_WITH ''s'', dst = 1\<rparr>,
               \<lparr>src = 1, kind = FRIENDS_WITH ''s'', dst = 8\<rparr>,
               \<lparr>src = 8, kind = FRIENDS_WITH ''s'', dst = 1\<rparr>,
               \<lparr>src = 1, kind = FRIENDS_WITH ''s'', dst = 9\<rparr>,
               \<lparr>src = 9, kind = FRIENDS_WITH ''s'', dst = 1\<rparr>,
               \<lparr>src = 1, kind = FRIENDS_WITH ''s'', dst = 10\<rparr>,
               \<lparr>src = 10, kind = FRIENDS_WITH ''s'', dst = 1\<rparr>,
               \<lparr>src = 1, kind = FRIENDS_WITH ''s'', dst = 11\<rparr>,
               \<lparr>src = 11, kind = FRIENDS_WITH ''s'', dst = 1\<rparr>,
               \<lparr>src = 1, kind = FRIENDS_WITH ''s'', dst = 12\<rparr>,
               \<lparr>src = 12, kind = FRIENDS_WITH ''s'', dst = 1\<rparr>]\<rparr>"

definition hikers_calls :: "call list" where
  "hikers_calls =
     [CreateUser ''alice'' ''Alice Johnson'' 28 ''New York'' 0,
      CreateUser ''bob'' ''Bob Smith'' 32 ''San Francisco'' 1,
      CreateUser ''carol'' ''Carol White'' 25 ''New York'' 2,
      AddInterest ''alice'' ''hiking'',
      AddInterest ''bob'' ''hiking'']"

definition hikers :: graph where
  "hikers =
     \<lparr>nodes = [User ''alice'' ''Alice Johnson'' 28 ''New York'' 0,
               User ''bob'' ''Bob Smith'' 32 ''San Francisco'' 1,
               User ''carol'' ''Carol White'' 25 ''New York'' 2,
               Interest ''hiking''],
      edges = [\<lparr>src = 0, kind = INTERESTED_IN, dst = 3\<rparr>,
               \<lparr>src = 1, kind = INTERESTED_IN, dst = 3\<rparr>]\<rparr>"

definition keen_calls :: "call list" where
  "keen_calls =
     [CreateUser ''alice'' ''Alice Johnson'' 28 ''New York'' 0,
      AddInterest ''alice'' ''hiking'',
      AddInterest ''alice'' ''hiking'']"

definition keen :: graph where
  "keen =
     \<lparr>nodes = [User ''alice'' ''Alice Johnson'' 28 ''New York'' 0, Interest ''hiking''],
      edges = [\<lparr>src = 0, kind = INTERESTED_IN, dst = 1\<rparr>,
               \<lparr>src = 0, kind = INTERESTED_IN, dst = 1\<rparr>]\<rparr>"

definition chain_calls :: "call list" where
  "chain_calls =
     [CreateUser ''a'' ''A'' 30 ''Oslo'' 0,
      CreateUser ''b'' ''B'' 30 ''Oslo'' 1,
      CreateUser ''c'' ''C'' 30 ''Oslo'' 2,
      CreateUser ''d'' ''D'' 30 ''Oslo'' 3,
      AddFriendship ''a'' ''b'' (Some ''s'') ''t'',
      AddFriendship ''b'' ''c'' (Some ''s'') ''t'',
      AddFriendship ''c'' ''d'' (Some ''s'') ''t'']"

definition chain :: graph where
  "chain =
     \<lparr>nodes = [User ''a'' ''A'' 30 ''Oslo'' 0, User ''b'' ''B'' 30 ''Oslo'' 1,
               User ''c'' ''C'' 30 ''Oslo'' 2, User ''d'' ''D'' 30 ''Oslo'' 3],
      edges = [\<lparr>src = 0, kind = FRIENDS_WITH ''s'', dst = 1\<rparr>,
               \<lparr>src = 1, kind = FRIENDS_WITH ''s'', dst = 0\<rparr>,
               \<lparr>src = 1, kind = FRIENDS_WITH ''s'', dst = 2\<rparr>,
               \<lparr>src = 2, kind = FRIENDS_WITH ''s'', dst = 1\<rparr>,
               \<lparr>src = 2, kind = FRIENDS_WITH ''s'', dst = 3\<rparr>,
               \<lparr>src = 3, kind = FRIENDS_WITH ''s'', dst = 2\<rparr>]\<rparr>"

definition shortcut :: graph where
  "shortcut =
     chain\<lparr>edges := edges chain @ [\<lparr>src = 0, kind = FRIENDS_WITH ''s'', dst = 3\<rparr>,
                                      \<lparr>src = 3, kind = FRIENDS_WITH ''s'', dst = 0\<rparr>]\<rparr>"

section \<open>Notions of the specification\<close>

text \<open>
  The data model's invariant on friendships: every \<open>FRIENDS_WITH\<close> relationship has a
  reverse one with the same \<open>since\<close>.
\<close>

definition friends_symmetric :: "graph \<Rightarrow> bool" where
  "friends_symmetric g =
     (\<forall>e \<in> set (edges g). is_FRIENDS_WITH (kind e)
         \<longrightarrow> \<lparr>src = dst e, kind = kind e, dst = src e\<rparr> \<in> set (edges g))"

text \<open>
  The data model's other invariant on friendships: no node is its own friend, and no
  ordered pair of nodes is joined by more than one \<open>FRIENDS_WITH\<close> relationship.
\<close>

definition friend_pairs :: "graph \<Rightarrow> (nat \<times> nat) list" where
  "friend_pairs g = [(src e, dst e). e \<leftarrow> edges g, is_FRIENDS_WITH (kind e)]"

definition friends_irreflexive :: "graph \<Rightarrow> bool" where
  "friends_irreflexive g = (\<forall>(a, b) \<in> set (friend_pairs g). a \<noteq> b)"

definition friends_simple :: "graph \<Rightarrow> bool" where
  "friends_simple g = distinct (friend_pairs g)"

text \<open>
  A client that keeps the discipline the code leaves to it: it asks for a friendship
  only between two different ids whose users are not friends yet.
\<close>

fun ok_call :: "graph \<Rightarrow> call \<Rightarrow> bool" where
  "ok_call g (CreateUser i n a l t) = True"
| "ok_call g (AddFriendship a b s t) =
     (a \<noteq> b \<and> (\<forall>u \<in> set (match_user g a). \<forall>v \<in> set (match_user g b).
                   \<not> has_friend g u v \<and> \<not> has_friend g v u))"
| "ok_call g (AddInterest u x) = True"
| "ok_call g ClearDatabase = True"

fun disciplined :: "graph \<Rightarrow> call list \<Rightarrow> bool" where
  "disciplined g [] = True"
| "disciplined g (c # cs) =
     (ok_call g c \<and> (case exec g c of Inl e \<Rightarrow> True | Inr g' \<Rightarrow> disciplined g' cs))"

text \<open>User ids name at most one node each: what \<open>user U\<close> presupposes.\<close>

definition ids_unique :: "graph \<Rightarrow> bool" where
  "ids_unique g = (\<forall>i. length (match_user g i) \<le> 1)"

text \<open>
  Second-degree connections, as the specification defines them: the nodes two
  \<open>FRIENDS_WITH\<close> hops away from \<open>u\<close>, without \<open>u\<close> itself and without the friends of
  \<open>u\<close>; and the friends of \<open>u\<close> through which such a node is reached.
\<close>

definition second_degree :: "graph \<Rightarrow> nat \<Rightarrow> nat set" where
  "second_degree g u =
     {c. (\<exists>f. has_friend g u f \<and> has_friend g f c) \<and> c \<noteq> u \<and> \<not> has_friend g u c}"

definition mutual :: "graph \<Rightarrow> nat \<Rightarrow> nat \<Rightarrow> nat set" where
  "mutual g u c = {f. has_friend g u f \<and> has_friend g f c}"

text \<open>
  What every graph built by the methods satisfies: relationships join existing nodes, a
  \<open>FRIENDS_WITH\<close> relationship joins two \<open>User\<close> nodes and an \<open>INTERESTED_IN\<close>
  relationship leads from a \<open>User\<close> node to an \<open>Interest\<close> node.
\<close>

definition wf_graph :: "graph \<Rightarrow> bool" where
  "wf_graph g =
     (\<forall>e \<in> set (edges g).
        src e < length (nodes g) \<and> dst e < length (nodes g) \<and> is_User (nodes g ! src e)
        \<and> (if is_FRIENDS_WITH (kind e) then is_User (nodes g ! dst e)
            else is_Interest (nodes g ! dst e)))"


text \<open>
  The memberships of an \<open>Interest\<close> node: its incoming \<open>INTERESTED_IN\<close> relationships
  from \<open>User\<close> nodes. The incident user set of the specification is the set of their
  start nodes.
\<close>

definition member_edges :: "graph \<Rightarrow> nat \<Rightarrow> edge list" where
  "member_edges g i =
     [e \<leftarrow> edges g. is_INTERESTED_IN (kind e) \<and> dst e = i \<and> is_User (nodes g ! src e)]"

definition interest_users :: "graph \<Rightarrow> nat \<Rightarrow> nat set" where
  "interest_users g i = src ` set (member_edges g i)"

definition interest_nodes :: "graph \<Rightarrow> nat set" where
  "interest_nodes g = {i. i < length (nodes g) \<and> is_Interest (nodes g ! i)}"

text \<open>Every \<open>Interest\<close> node of a graph built by the methods has a member.\<close>

definition interests_held :: "graph \<Rightarrow> bool" where
  "interests_held g = (\<forall>i \<in> interest_nodes g. member_edges g i \<noteq> [])"

text \<open>
  Paths over the undirected \<open>FRIENDS_WITH\<close> relation: two nodes are linked when a
  friendship leads from one to the other in either direction, and a walk is a non-empty
  list of nodes in which each is linked to the next. \<open>within g a k\<close> are the nodes that
  a walk of \<open>k\<close> hops from \<open>a\<close> ends in.
\<close>

definition linked :: "graph \<Rightarrow> nat \<Rightarrow> nat \<Rightarrow> bool" where
  "linked g v w = (has_friend g v w \<or> has_friend g w v)"

fun walk :: "graph \<Rightarrow> nat list \<Rightarrow> bool" where
  "walk g [] = False"
| "walk g [v] = True"
| "walk g (v # w # p) = (linked g v w \<and> walk g (w # p))"

definition within :: "graph \<Rightarrow> nat \<Rightarrow> nat \<Rightarrow> nat set" where
  "within g a k = {v. \<exists>q. walk g q \<and> hd q = a \<and> last q = v \<and> length q = Suc k}"

text \<open>
  What holds of \<open>bfs\<close> when it looks at level \<open>k\<close> of the search from \<open>a\<close> for \<open>t\<close>:
  the paths of the level are walks of \<open>k\<close> hops from \<open>a\<close>, read backwards; the nodes seen
  are those within \<open>k\<close> hops; the level ends in exactly the nodes that are \<open>k\<close> hops away
  and no less; and the target is not nearer than \<open>k\<close> hops.
\<close>

definition bfs_inv :: "graph \<Rightarrow> nat \<Rightarrow> nat \<Rightarrow> nat \<Rightarrow> nat list \<Rightarrow> nat list list \<Rightarrow> bool" where
  "bfs_inv g a t k seen level =
     ((\<forall>p \<in> set level. walk g (rev p) \<and> hd (rev p) = a \<and> length p = Suc k)
      \<and> set seen = (\<Union>j \<le> k. within g a j)
      \<and> hd ` set level = within g a k - (\<Union>j < k. within g a j)
      \<and> t \<notin> (\<Union>j < k. within g a j))"

section \<open>Closed forms used in the proofs\<close>

text \<open>The graph after the \<open>MERGE\<close> of \<open>add_interest\<close> has run for at least one row.\<close>

definition merged :: "graph \<Rightarrow> string \<Rightarrow> graph" where
  "merged g x = (if match_interest g x = [] then g\<lparr>nodes := nodes g @ [Interest x]\<rparr> else g)"

text \<open>The relationships the two \<open>CREATE\<close> clauses of \<open>add_friendship\<close> append.\<close>

definition friendship_edges :: "string \<Rightarrow> (nat \<times> nat) list \<Rightarrow> edge list" where
  "friendship_edges s rows =
     map (\<lambda>(u1, u2). \<lparr>src = u1, kind = FRIENDS_WITH s, dst = u2\<rparr>) rows
     @ map (\<lambda>(u1, u2). \<lparr>src = u2, kind = FRIENDS_WITH s, dst = u1\<rparr>) rows"

text \<open>The rows of \<open>get_network_statistics\<close> for one matched user.\<close>

definition user_rows :: "graph \<Rightarrow> nat \<Rightarrow> (nat \<times> nat option \<times> nat option \<times> nat option) list" where
  "user_rows g u =
     [(u, f, i, c). f \<leftarrow> optional_match (friends_of g u),
        i \<leftarrow> optional_match (interests_of g u),
        c \<leftarrow> optional_match (second_hops g u)]"

text \<open>The groups of \<open>find_friends_of_friends\<close>: their keys, and the record of one key.\<close>

definition fof_keys :: "graph \<Rightarrow> string \<Rightarrow> (string \<times> string \<times> string) list" where
  "fof_keys g U = remdups (map (\<lambda>(u, f, c). fof_key g c) (fof_rows g U))"

definition fof_group :: "graph \<Rightarrow> string \<Rightarrow> string \<times> string \<times> string \<Rightarrow> fof_record" where
  "fof_group g U k =
     \<lparr>user_id = fst k, name = fst (snd k), location = snd (snd k),
      mutual_friends = length (remdups [f. (u, f, c) \<leftarrow> fof_rows g U, fof_key g c = k])\<rparr>"

section \<open>Basic facts about matching\<close>

lemma match_user_append:
  "match_user (g\<lparr>nodes := nodes g @ [n]\<rparr>) u
     = match_user g u @ (if has_user_id u n then [length (nodes g)] else [])"
  by (auto simp add: match_user_def nth_append intro!: filter_cong)

lemma match_user_edges [simp]: "match_user (g\<lparr>edges := es\<rparr>) u = match_user g u"
  by (simp add: match_user_def)

section \<open>The mutating methods: errors and identities\<close>

text \<open>
  C8, as the code has it: \<open>create_user\<close> never fails with \<open>DuplicateKey\<close>. For every id,
  one already in the graph included, and every age that fits 64 bits, it returns normally
  and appends exactly one \<open>User\<close> node carrying that id, leaving all other nodes and all
  relationships as they were; the nodes matching the id are the old ones and the new one,
  and the nodes matching any other id are unchanged. For an age outside that range it
  raises \<open>OverflowError\<close>, whatever the id, and nothing is created.
\<close>

theorem create_user_appends_or_overflows:
  "(int64 a \<longrightarrow>
      (\<exists>g'. create_user g i n a l t = Inr g'
         \<and> nodes g' = nodes g @ [User i n a l t]
         \<and> edges g' = edges g
         \<and> match_user g' i = match_user g i @ [length (nodes g)]
         \<and> (\<forall>j. j \<noteq> i \<longrightarrow> match_user g' j = match_user g j)))
   \<and> (\<not> int64 a \<longrightarrow> create_user g i n a l t = Inl OverflowError)
   \<and> create_user g i n a l t \<noteq> Inl DuplicateKey"
  by (simp add: create_user_def match_user_append)

text \<open>
  The claim C8 as stated fails: creating \<open>alice\<close> a second time raises nothing and leaves
  two nodes with that id.
\<close>

theorem create_user_duplicate_counterexample:
  "create_user one_user ''alice'' ''Alice Again'' 30 ''Boston'' 1
     = Inr \<lparr>nodes = [User ''alice'' ''Alice Johnson'' 28 ''New York'' 0,
                     User ''alice'' ''Alice Again'' 30 ''Boston'' 1],
            edges = []\<rparr>
   \<and> create_user one_user ''alice'' ''Alice Again'' 30 ''Boston'' 1 \<noteq> Inl DuplicateKey"
  by (simp add: create_user_def one_user_def int64_def)

theorem create_user_appends_or_overflows_witness:
  "int64 30 \<and> \<not> int64 (2 ^ 63)
   \<and> (\<exists>g'. create_user one_user ''alice'' ''Alice Again'' 30 ''Boston'' 1 = Inr g'
        \<and> length (nodes g') = 2
        \<and> match_user g' ''alice'' = [0, 1]
        \<and> match_user g' ''bob'' = [])
   \<and> create_user one_user ''alice'' ''Alice Again'' (2 ^ 63) ''Boston'' 1 = Inl OverflowError"
proof -
  have m: "match_user one_user ''alice'' = [0]" "match_user one_user ''bob'' = []"
    by (simp_all add: match_user_def one_user_def)
  have n: "length (nodes one_user) = 1"
    by (simp add: one_user_def)
  have r: "int64 30" "\<not> int64 (2 ^ 63)"
    by (simp_all add: int64_def)
  note t = create_user_appends_or_overflows [of _ one_user "''alice''" "''Alice Again''" "''Boston''" 1]
  from t [of 30] r(1)
  obtain g' where g': "create_user one_user ''alice'' ''Alice Again'' 30 ''Boston'' 1 = Inr g'"
      "nodes g' = nodes one_user @ [User ''alice'' ''Alice Again'' 30 ''Boston'' 1]"
      "match_user g' ''alice'' = match_user one_user ''alice'' @ [length (nodes one_user)]"
      "\<forall>j. j \<noteq> ''alice'' \<longrightarrow> match_user g' j = match_user one_user j"
    by blast
  from g'(4) have "match_user g' ''bob'' = match_user one_user ''bob''"
    by simp
  with g' m n have "\<exists>g'. create_user one_user ''alice'' ''Alice Again'' 30 ''Boston'' 1 = Inr g'
        \<and> length (nodes g') = 2
        \<and> match_user g' ''alice'' = [0, 1]
        \<and> match_user g' ''bob'' = []"
    by simp
  moreover from t [of "2 ^ 63"] r(2)
  have "create_user one_user ''alice'' ''Alice Again'' (2 ^ 63) ''Boston'' 1 = Inl OverflowError"
    by blast
  ultimately show ?thesis
    using r by blast
qed

text \<open>
  C4, as the code has it: when a referenced user does not exist, \<open>add_friendship\<close> and
  \<open>add_interest\<close> return normally, raising no error, and the graph is exactly the graph
  before the call: the \<open>MATCH\<close> gives no row, so no \<open>CREATE\<close> and no \<open>MERGE\<close> runs.
\<close>

theorem missing_endpoint_is_silent_noop:
  "(match_user g a = [] \<or> match_user g b = [] \<longrightarrow> add_friendship g a b s t = Inr g)
   \<and> (match_user g u = [] \<longrightarrow> add_interest g u x = Inr g)"
  by (auto simp: add_friendship_def add_interest_def friendship_rows_def Let_def)

theorem missing_endpoint_is_silent_noop_witness:
  "match_user one_user ''ghost'' = []
   \<and> add_friendship one_user ''alice'' ''ghost'' None ''2024-01-01'' = Inr one_user
   \<and> add_interest one_user ''ghost'' ''hiking'' = Inr one_user"
proof -
  have m: "match_user one_user ''ghost'' = []"
    by (simp add: match_user_def one_user_def)
  with missing_endpoint_is_silent_noop
         [of one_user "''alice''" "''ghost''" None "''2024-01-01''" "''ghost''" "''hiking''"]
  show ?thesis by simp
qed

text \<open>
  The claim C4 as stated fails in its first half: a friendship with an unknown user ends
  without \<open>NotFound\<close>.
\<close>

theorem missing_endpoint_counterexample:
  "match_user one_user ''ghost'' = []
   \<and> add_friendship one_user ''alice'' ''ghost'' None ''2024-01-01'' \<noteq> Inl NotFound
   \<and> add_interest one_user ''ghost'' ''hiking'' \<noteq> Inl NotFound"
  by (simp add: add_friendship_def add_interest_def friendship_rows_def match_user_def
        one_user_def)

section \<open>Effects of the mutating methods\<close>

lemma match_user_bound: "u \<in> set (match_user g i) \<Longrightarrow> u < length (nodes g) \<and> has_user_id i (nodes g ! u)"
  by (simp add: match_user_def)

lemma has_user_id_is_User: "has_user_id i n \<Longrightarrow> is_User n \<and> uid n = i"
  by (cases n) auto

lemma match_interest_append:
  "match_interest (g\<lparr>nodes := nodes g @ [n]\<rparr>) x
     = match_interest g x @ (if has_interest_name x n then [length (nodes g)] else [])"
  by (auto simp add: match_interest_def nth_append intro!: filter_cong)

lemma match_interest_edges [simp]: "match_interest (g\<lparr>edges := es\<rparr>) x = match_interest g x"
  by (simp add: match_interest_def)

lemma match_interest_merged_ne: "match_interest (merged g x) x \<noteq> []"
  by (simp add: merged_def match_interest_append)

lemma merged_idem: "merged (merged g x) x = merged g x"
  using match_interest_merged_ne [of g x] by (simp add: merged_def)

lemma merge_interest_closed:
  "merge_interest g x us =
     (if us = [] then (g, [])
      else (merged g x, [(u, i). u \<leftarrow> us, i \<leftarrow> match_interest (merged g x) x]))"
proof (induction us arbitrary: g)
  case Nil
  show ?case by simp
next
  case (Cons u us)
  have "merge_interest (merged g x) x us = (if us = [] then (merged g x, [])
      else (merged g x, [(u, i). u \<leftarrow> us, i \<leftarrow> match_interest (merged g x) x]))"
    using Cons.IH [of "merged g x"] by (simp add: merged_idem)
  then show ?case
    by (simp add: merged_def [symmetric] Let_def)
qed

lemma add_interest_closed:
  "add_interest g u x =
     Inr (if match_user g u = [] then g
          else (merged g x)\<lparr>edges := edges g
                 @ [\<lparr>src = a, kind = INTERESTED_IN, dst = i\<rparr>.
                      a \<leftarrow> match_user g u, i \<leftarrow> match_interest (merged g x) x]\<rparr>)"
  by (simp add: add_interest_def merge_interest_closed merged_def map_concat comp_def)

lemma edges_merged [simp]: "edges (merged g x) = edges g"
  by (simp add: merged_def)

lemma friendship_rows_set:
  "set (friendship_rows g a b) = set (match_user g a) \<times> set (match_user g b)"
  by (auto simp: friendship_rows_def)

lemma run_invariant:
  assumes "run g cs = Inr g'" and "P g"
    and step: "\<And>h c h'. P h \<Longrightarrow> exec h c = Inr h' \<Longrightarrow> P h'"
  shows "P g'"
  using assms(1,2)
proof (induction cs arbitrary: g)
  case Nil
  then show ?case by simp
next
  case (Cons c cs)
  then show ?case
    by (auto split: sum.splits intro: step)
qed

lemma friend_steps_set:
  "set (friend_steps g a) =
     {(k, dst (edges g ! k)) | k. k < length (edges g) \<and> src (edges g ! k) = a
          \<and> is_FRIENDS_WITH (kind (edges g ! k))}"
  by (auto simp: friend_steps_def)

lemma has_friend_iff:
  "has_friend g a b \<longleftrightarrow> (\<exists>e \<in> set (edges g). src e = a \<and> dst e = b \<and> is_FRIENDS_WITH (kind e))"
proof
  assume "has_friend g a b"
  then obtain k where "(k, b) \<in> set (friend_steps g a)"
    by (auto simp: has_friend_def friends_of_def)
  then have "k < length (edges g)" "src (edges g ! k) = a" "dst (edges g ! k) = b"
      "is_FRIENDS_WITH (kind (edges g ! k))"
    by (auto simp: friend_steps_set)
  then show "\<exists>e \<in> set (edges g). src e = a \<and> dst e = b \<and> is_FRIENDS_WITH (kind e)"
    using nth_mem by blast
next
  assume "\<exists>e \<in> set (edges g). src e = a \<and> dst e = b \<and> is_FRIENDS_WITH (kind e)"
  then obtain k where "k < length (edges g)" "src (edges g ! k) = a" "dst (edges g ! k) = b"
      "is_FRIENDS_WITH (kind (edges g ! k))"
    by (metis in_set_conv_nth)
  then have "(k, b) \<in> set (friend_steps g a)"
    by (auto simp: friend_steps_set)
  then show "has_friend g a b"
    by (force simp: has_friend_def friends_of_def)
qed

lemma friendship_edges_set:
  "e \<in> set (friendship_edges s rows) \<longleftrightarrow>
     kind e = FRIENDS_WITH s \<and> ((src e, dst e) \<in> set rows \<or> (dst e, src e) \<in> set rows)"
proof -
  have "e = \<lparr>src = src e, kind = kind e, dst = dst e\<rparr>"
    by simp
  then show ?thesis
    unfolding friendship_edges_def set_append set_map Un_iff image_iff
    by (metis (mono_tags, lifting) edge.select_convs case_prod_conv prod.collapse)
qed

lemma add_friendship_edges:
  "add_friendship g a b s t =
     Inr (g\<lparr>edges := edges g
            @ friendship_edges (case s of None \<Rightarrow> t | Some x \<Rightarrow> x) (friendship_rows g a b)\<rparr>)"
  by (simp add: add_friendship_def Let_def friendship_edges_def)

lemma friends_symmetric_exec:
  assumes "friends_symmetric g" "exec g c = Inr g'"
  shows "friends_symmetric g'"
proof (cases c)
  case (CreateUser i n a l t)
  with assms show ?thesis
    by (auto simp: create_user_def friends_symmetric_def split: if_splits)
next
  case (AddFriendship a b s t)
  let ?s = "case s of None \<Rightarrow> t | Some x \<Rightarrow> x"
  from AddFriendship assms have g': "edges g' = edges g @ friendship_edges ?s (friendship_rows g a b)"
    by (auto simp add: add_friendship_edges)
  show ?thesis
    unfolding friends_symmetric_def
  proof (intro ballI impI)
    fix e assume e: "e \<in> set (edges g')" "is_FRIENDS_WITH (kind e)"
    show "\<lparr>src = dst e, kind = kind e, dst = src e\<rparr> \<in> set (edges g')"
    proof (cases "e \<in> set (edges g)")
      case True
      with assms(1) e(2) show ?thesis
        by (simp add: friends_symmetric_def g')
    next
      case False
      with e g' have "e \<in> set (friendship_edges ?s (friendship_rows g a b))"
        by simp
      then have "\<lparr>src = dst e, kind = kind e, dst = src e\<rparr>
                   \<in> set (friendship_edges ?s (friendship_rows g a b))"
        by (simp add: friendship_edges_set disj_commute)
      then show ?thesis
        by (simp add: g')
    qed
  qed
next
  case (AddInterest u x)
  with assms have g': "g' = g \<or> edges g' = edges g
                 @ [\<lparr>src = a, kind = INTERESTED_IN, dst = i\<rparr>.
                      a \<leftarrow> match_user g u, i \<leftarrow> match_interest (merged g x) x]"
    by (auto simp: add_interest_closed split: if_splits)
  show ?thesis
    unfolding friends_symmetric_def
  proof (intro ballI impI)
    fix e assume e: "e \<in> set (edges g')" "is_FRIENDS_WITH (kind e)"
    then have "e \<in> set (edges g)"
      using g' by auto
    with assms(1) e(2) have "\<lparr>src = dst e, kind = kind e, dst = src e\<rparr> \<in> set (edges g)"
      by (simp add: friends_symmetric_def)
    then show "\<lparr>src = dst e, kind = kind e, dst = src e\<rparr> \<in> set (edges g')"
      using g' by auto
  qed
next
  case ClearDatabase
  with assms show ?thesis
    by (auto simp: clear_database_def empty_graph_def friends_symmetric_def)
qed

lemma friends_symmetric_run:
  assumes "run empty_graph cs = Inr g"
  shows "friends_symmetric g"
  using assms
proof (rule run_invariant)
  show "friends_symmetric empty_graph"
    by (simp add: friends_symmetric_def empty_graph_def)
qed (rule friends_symmetric_exec)

lemma run_two_users:
  "run empty_graph [CreateUser ''alice'' ''Alice Johnson'' 28 ''New York'' 0,
                    CreateUser ''bob'' ''Bob Smith'' 32 ''San Francisco'' 1] = Inr two_users"
  by (simp add: create_user_def empty_graph_def two_users_def int64_def)

section \<open>Friendships are stored in both directions\<close>

text \<open>
  C3: in every graph that a sequence of calls builds, each \<open>FRIENDS_WITH\<close> relationship
  has its reverse with the same \<open>since\<close>; and \<open>add_friendship\<close> on two existing users
  leaves a graph, again symmetric, that holds both directions between every node
  matching the first id and every node matching the second, with the \<open>since\<close> of the
  call (the time of the call when none is given), so that each is a neighbour of the
  other.
\<close>

theorem friendship_is_symmetric:
  assumes "run empty_graph cs = Inr g" and "match_user g a \<noteq> []" and "match_user g b \<noteq> []"
  shows "\<exists>g'. add_friendship g a b s t = Inr g'
           \<and> friends_symmetric g \<and> friends_symmetric g'
           \<and> (\<forall>u \<in> set (match_user g a). \<forall>v \<in> set (match_user g b).
                 \<lparr>src = u, kind = FRIENDS_WITH (case s of None \<Rightarrow> t | Some x \<Rightarrow> x), dst = v\<rparr>
                    \<in> set (edges g')
               \<and> \<lparr>src = v, kind = FRIENDS_WITH (case s of None \<Rightarrow> t | Some x \<Rightarrow> x), dst = u\<rparr>
                    \<in> set (edges g')
               \<and> has_friend g' u v \<and> has_friend g' v u)"
proof -
  let ?s = "case s of None \<Rightarrow> t | Some x \<Rightarrow> x"
  let ?g' = "g\<lparr>edges := edges g @ friendship_edges ?s (friendship_rows g a b)\<rparr>"
  have eq: "add_friendship g a b s t = Inr ?g'"
    by (rule add_friendship_edges)
  have sym: "friends_symmetric g"
    using assms(1) by (rule friends_symmetric_run)
  have "exec g (AddFriendship a b s t) = Inr ?g'"
    using eq by simp
  with sym have sym': "friends_symmetric ?g'"
    by (rule friends_symmetric_exec)
  have both: "\<lparr>src = u, kind = FRIENDS_WITH ?s, dst = v\<rparr> \<in> set (edges ?g')
            \<and> \<lparr>src = v, kind = FRIENDS_WITH ?s, dst = u\<rparr> \<in> set (edges ?g')"
    if "u \<in> set (match_user g a)" "v \<in> set (match_user g b)" for u v
  proof -
    have "(u, v) \<in> set (friendship_rows g a b)"
      using that by (simp add: friendship_rows_set)
    then show ?thesis
      by (simp add: friendship_edges_set)
  qed
  have hf: "has_friend ?g' u v \<and> has_friend ?g' v u"
    if "u \<in> set (match_user g a)" "v \<in> set (match_user g b)" for u v
  proof -
    from both [OF that] have
      "\<exists>e \<in> set (edges ?g'). src e = u \<and> dst e = v \<and> is_FRIENDS_WITH (kind e)"
      "\<exists>e \<in> set (edges ?g'). src e = v \<and> dst e = u \<and> is_FRIENDS_WITH (kind e)"
      by (metis edge.select_convs(1,2,3) rel.disc(1))+
    then show ?thesis
      by (simp only: has_friend_iff)
  qed
  show ?thesis
    using eq sym sym' both hf by (intro exI [of _ ?g']) blast
qed

theorem friendship_is_symmetric_witness:
  "\<exists>g'. add_friendship two_users ''alice'' ''bob'' (Some ''2020-05-17'') ''now'' = Inr g'
      \<and> friends_symmetric g'
      \<and> \<lparr>src = 0, kind = FRIENDS_WITH ''2020-05-17'', dst = 1\<rparr> \<in> set (edges g')
      \<and> \<lparr>src = 1, kind = FRIENDS_WITH ''2020-05-17'', dst = 0\<rparr> \<in> set (edges g')
      \<and> has_friend g' 0 1 \<and> has_friend g' 1 0"
proof -
  have a: "match_user two_users ''alice'' = [0]" and b: "match_user two_users ''bob'' = [1]"
    by (simp_all add: match_user_def two_users_def)
  have "match_user two_users ''alice'' \<noteq> []" "match_user two_users ''bob'' \<noteq> []"
    by (simp_all add: a b)
  from friendship_is_symmetric [OF run_two_users this, of "Some ''2020-05-17''" "''now''"]
  show ?thesis
    by (simp add: a b, blast)
qed

section \<open>Interests are shared nodes\<close>

lemma match_interest_merged:
  "match_interest (merged g x) y =
     (if y = x \<and> match_interest g x = [] then [length (nodes g)] else match_interest g y)"
  by (auto simp: merged_def match_interest_append)

lemma match_user_merged [simp]: "match_user (merged g x) u = match_user g u"
  by (simp add: merged_def match_user_append)

lemma interested_edge_eq:
  "e = \<lparr>src = a, kind = INTERESTED_IN, dst = i\<rparr>
     \<longleftrightarrow> src e = a \<and> is_INTERESTED_IN (kind e) \<and> dst e = i"
  by (cases e; cases "kind e") auto

lemma interests_of_iff:
  "i \<in> set (interests_of g a) \<longleftrightarrow> \<lparr>src = a, kind = INTERESTED_IN, dst = i\<rparr> \<in> set (edges g)"
proof
  assume "i \<in> set (interests_of g a)"
  then obtain e where "e \<in> set (edges g)" "src e = a" "is_INTERESTED_IN (kind e)" "dst e = i"
    by (auto simp: interests_of_def)
  then have "e = \<lparr>src = a, kind = INTERESTED_IN, dst = i\<rparr>"
    by (simp add: interested_edge_eq)
  with \<open>e \<in> set (edges g)\<close> show "\<lparr>src = a, kind = INTERESTED_IN, dst = i\<rparr> \<in> set (edges g)"
    by simp
next
  assume "\<lparr>src = a, kind = INTERESTED_IN, dst = i\<rparr> \<in> set (edges g)"
  then show "i \<in> set (interests_of g a)"
    by (force simp: interests_of_def)
qed

lemma interest_unique_exec:
  assumes "\<forall>y. length (match_interest g y) \<le> 1" "exec g c = Inr g'"
  shows "\<forall>y. length (match_interest g' y) \<le> 1"
proof (cases c)
  case (CreateUser i n a l t)
  with assms show ?thesis
    by (auto simp: create_user_def match_interest_append split: if_splits)
next
  case (AddFriendship a b s t)
  with assms show ?thesis
    by (auto simp: add_friendship_edges)
next
  case (AddInterest u x)
  with assms have "g' = g \<or> nodes g' = nodes (merged g x)"
    by (auto simp: add_interest_closed split: if_splits)
  then have "match_interest g' y = match_interest g y \<or> match_interest g' y = match_interest (merged g x) y" for y
    by (auto simp: match_interest_def)
  then show ?thesis
    using assms(1) by (metis match_interest_merged le_refl length_Cons list.size(3) One_nat_def)
next
  case ClearDatabase
  with assms show ?thesis
    by (auto simp: clear_database_def empty_graph_def match_interest_def)
qed

lemma interest_unique_run:
  assumes "run empty_graph cs = Inr g"
  shows "\<forall>y. length (match_interest g y) \<le> 1"
  using assms
proof (rule run_invariant)
  show "\<forall>y. length (match_interest empty_graph y) \<le> 1"
    by (simp add: match_interest_def empty_graph_def)
qed (rule interest_unique_exec)


lemma run_snoc:
  "run g (cs @ [c]) = (case run g cs of Inl e \<Rightarrow> Inl e | Inr h \<Rightarrow> exec h c)"
  by (induction cs arbitrary: g) (auto split: sum.splits)

lemma interest_edges_set:
  "\<lparr>src = u, kind = INTERESTED_IN, dst = i\<rparr>
      \<in> set [\<lparr>src = a, kind = INTERESTED_IN, dst = j\<rparr>. a \<leftarrow> us, j \<leftarrow> is]
   \<longleftrightarrow> u \<in> set us \<and> i \<in> set is"
  by auto

text \<open>
  C5: in every graph that a sequence of calls builds, no interest name is carried by more
  than one \<open>Interest\<close> node. When \<open>add_interest\<close> is called with the same name for two
  existing users, one after the other, the graph holds exactly one \<open>Interest\<close> node of
  that name after the first call and the same single node after the second, the second
  call creates no node, and the node is an \<open>INTERESTED_IN\<close> neighbour of every node
  matching either user.
\<close>

theorem interest_nodes_are_shared:
  assumes "run empty_graph cs = Inr g" and "match_user g a \<noteq> []" and "match_user g b \<noteq> []"
  shows "(\<forall>y. length (match_interest g y) \<le> 1)
       \<and> (\<exists>g1 g2 i. add_interest g a x = Inr g1 \<and> add_interest g1 b x = Inr g2
             \<and> match_interest g1 x = [i] \<and> match_interest g2 x = [i]
             \<and> nodes g2 = nodes g1
             \<and> (\<forall>y. length (match_interest g2 y) \<le> 1)
             \<and> (\<forall>u \<in> set (match_user g a). i \<in> set (interests_of g2 u))
             \<and> (\<forall>v \<in> set (match_user g b). i \<in> set (interests_of g2 v)))"
proof -
  define new where "new h c = [\<lparr>src = u, kind = INTERESTED_IN, dst = i\<rparr>.
                      u \<leftarrow> match_user h c, i \<leftarrow> match_interest (merged h x) x]" for h c
  define g1 where "g1 = (merged g x)\<lparr>edges := edges g @ new g a\<rparr>"
  define g2 where "g2 = g1\<lparr>edges := edges g1 @ new g1 b\<rparr>"
  have uniq: "\<forall>y. length (match_interest g y) \<le> 1"
    using assms(1) by (rule interest_unique_run)
  have e1: "add_interest g a x = Inr g1"
    using assms(2) by (simp add: add_interest_closed g1_def new_def)
  have m1: "match_interest g1 x = match_interest (merged g x) x"
    by (simp add: g1_def)
  have mg: "merged g1 x = g1"
    using match_interest_merged_ne [of g x] m1 by (simp add: merged_def)
  have mb: "match_user g1 b = match_user g b"
    by (simp add: g1_def)
  have e2: "add_interest g1 b x = Inr g2"
    using assms(3) by (simp add: add_interest_closed mg mb g2_def new_def)
  have r1: "run empty_graph (cs @ [AddInterest a x]) = Inr g1"
    using assms(1) e1 by (simp add: run_snoc)
  have r2: "run empty_graph (cs @ [AddInterest a x] @ [AddInterest b x]) = Inr g2"
    using r1 e2 by (simp add: run_snoc [of _ "cs @ [AddInterest a x]", simplified])
  have u1: "\<forall>y. length (match_interest g1 y) \<le> 1"
    using r1 by (rule interest_unique_run)
  have u2: "\<forall>y. length (match_interest g2 y) \<le> 1"
    using r2 by (rule interest_unique_run)
  have l1: "length (match_interest g1 x) \<le> 1"
    using u1 by blast
  have ne1: "match_interest g1 x \<noteq> []"
    using m1 match_interest_merged_ne [of g x] by simp
  from l1 ne1 obtain i where i: "match_interest g1 x = [i]"
    by (cases "match_interest g1 x") auto
  have m2: "match_interest g2 x = [i]"
    using i by (simp add: g2_def)
  have n2: "nodes g2 = nodes g1"
    by (simp add: g2_def)
  have ea: "i \<in> set (interests_of g2 u)" if "u \<in> set (match_user g a)" for u
  proof -
    have "\<lparr>src = u, kind = INTERESTED_IN, dst = i\<rparr> \<in> set (new g a)"
      unfolding new_def interest_edges_set using that i m1 by simp
    then show ?thesis
      by (simp add: interests_of_iff g2_def g1_def)
  qed
  have eb: "i \<in> set (interests_of g2 v)" if "v \<in> set (match_user g b)" for v
  proof -
    have "\<lparr>src = v, kind = INTERESTED_IN, dst = i\<rparr> \<in> set (new g1 b)"
      unfolding new_def interest_edges_set using that i mb mg by simp
    then show ?thesis
      by (simp add: interests_of_iff g2_def)
  qed
  show ?thesis
    using uniq e1 e2 i m2 n2 u2 ea eb by blast
qed

theorem interest_nodes_are_shared_witness:
  "\<exists>g1 g2. add_interest two_users ''alice'' ''hiking'' = Inr g1
        \<and> add_interest g1 ''bob'' ''hiking'' = Inr g2
        \<and> match_interest two_users ''hiking'' = []
        \<and> match_interest g1 ''hiking'' = [2] \<and> match_interest g2 ''hiking'' = [2]
        \<and> nodes g2 = nodes g1
        \<and> 2 \<in> set (interests_of g2 0) \<and> 2 \<in> set (interests_of g2 1)"
proof -
  have a: "match_user two_users ''alice'' = [0]" and b: "match_user two_users ''bob'' = [1]"
    and h: "match_interest two_users ''hiking'' = []"
    by (simp_all add: match_user_def match_interest_def two_users_def)
  have ne: "match_user two_users ''alice'' \<noteq> []" "match_user two_users ''bob'' \<noteq> []"
    by (simp_all add: a b)
  from interest_nodes_are_shared [OF run_two_users ne, of "''hiking''"]
  obtain g1 g2 i where g: "add_interest two_users ''alice'' ''hiking'' = Inr g1"
      "add_interest g1 ''bob'' ''hiking'' = Inr g2"
      "match_interest g1 ''hiking'' = [i]" "match_interest g2 ''hiking'' = [i]"
      "nodes g2 = nodes g1"
      "\<forall>u \<in> set (match_user two_users ''alice''). i \<in> set (interests_of g2 u)"
      "\<forall>v \<in> set (match_user two_users ''bob''). i \<in> set (interests_of g2 v)"
    by blast
  have "match_interest g1 ''hiking'' = match_interest (merged two_users ''hiking'') ''hiking''"
    using g(1) by (auto simp: add_interest_closed a)
  also have "\<dots> = [length (nodes two_users)]"
    by (simp add: match_interest_merged h)
  also have "\<dots> = [2]"
    by (simp add: two_users_def)
  finally have "match_interest g1 ''hiking'' = [2]" .
  with g(3) have "i = 2" by simp
  with g a b h show ?thesis
    by auto
qed

section \<open>Friendships without loops and parallels\<close>

lemma has_friend_pairs: "has_friend g a b \<longleftrightarrow> (a, b) \<in> set (friend_pairs g)"
  by (auto simp: has_friend_iff friend_pairs_def)

lemma friend_pairs_nodes [simp]: "friend_pairs (g\<lparr>nodes := ns\<rparr>) = friend_pairs g"
  by (simp add: friend_pairs_def)

lemma friend_pairs_append:
  "friend_pairs (g\<lparr>edges := edges h @ es\<rparr>)
     = friend_pairs h @ [(src e, dst e). e \<leftarrow> es, is_FRIENDS_WITH (kind e)]"
  by (simp add: friend_pairs_def)

lemma friend_pairs_merged [simp]: "friend_pairs (merged g x) = friend_pairs g"
  by (simp add: merged_def)

lemma friend_pairs_interest:
  "[(src e, dst e). e \<leftarrow> [\<lparr>src = a, kind = INTERESTED_IN, dst = i\<rparr>. a \<leftarrow> us, i \<leftarrow> is],
       is_FRIENDS_WITH (kind e)] = []"
  by (induction us) (auto simp: filter_empty_conv)

lemma friendship_rows_product:
  "friendship_rows g a b = List.product (match_user g a) (match_user g b)"
  by (simp add: friendship_rows_def product_concat_map)

lemma friendship_rows_distinct: "distinct (friendship_rows g a b)"
  unfolding friendship_rows_product
  by (intro distinct_product) (simp_all add: match_user_def)

lemma friendship_pairs:
  "[(src e, dst e). e \<leftarrow> friendship_edges s rows, is_FRIENDS_WITH (kind e)]
     = rows @ map (\<lambda>(u, v). (v, u)) rows"
proof -
  have 1: "[(src e, dst e). e \<leftarrow> map (\<lambda>(u1, u2). \<lparr>src = u1, kind = FRIENDS_WITH s, dst = u2\<rparr>) rs,
              is_FRIENDS_WITH (kind e)] = rs" for rs
    by (induction rs) auto
  have 2: "[(src e, dst e). e \<leftarrow> map (\<lambda>(u1, u2). \<lparr>src = u2, kind = FRIENDS_WITH s, dst = u1\<rparr>) rs,
              is_FRIENDS_WITH (kind e)] = map (\<lambda>(u, v). (v, u)) rs" for rs
    by (induction rs) auto
  show ?thesis
    unfolding friendship_edges_def map_append concat_append 1 2 ..
qed

lemma ok_step:
  assumes "friends_irreflexive g" "friends_simple g"
    and "ok_call g c" "exec g c = Inr g'"
  shows "friends_irreflexive g' \<and> friends_simple g'"
proof (cases c)
  case (CreateUser i n a l t)
  with assms(4) have g': "g' = g\<lparr>nodes := nodes g @ [User i n a l t]\<rparr>"
    by (simp add: create_user_def split: if_splits)
  then show ?thesis
    using assms(1,2) by (simp add: friends_irreflexive_def friends_simple_def)
next
  case (AddFriendship a b s t)
  let ?s = "case s of None \<Rightarrow> t | Some x \<Rightarrow> x"
  let ?rows = "friendship_rows g a b"
  let ?swap = "map (\<lambda>(u, v). (v, u)) ?rows"
  from AddFriendship assms(4)
  have g': "g' = g\<lparr>edges := edges g @ friendship_edges ?s ?rows\<rparr>"
    by (simp add: add_friendship_edges)
  have fp: "friend_pairs g' = friend_pairs g @ ?rows @ ?swap"
    by (simp add: g' friend_pairs_append friendship_pairs)
  have ab: "a \<noteq> b"
    and nf: "\<forall>u \<in> set (match_user g a). \<forall>v \<in> set (match_user g b).
               \<not> has_friend g u v \<and> \<not> has_friend g v u"
    using assms(3) AddFriendship by simp_all
  have apart: "u \<noteq> v" if "u \<in> set (match_user g a)" "v \<in> set (match_user g b)" for u v
  proof -
    have "has_user_id a (nodes g ! u)" "has_user_id b (nodes g ! v)"
      using match_user_bound that by blast+
    then show ?thesis
      using ab has_user_id_is_User by blast
  qed
  have rows: "(u, v) \<in> set ?rows \<longleftrightarrow> u \<in> set (match_user g a) \<and> v \<in> set (match_user g b)"
    for u v
    by (simp add: friendship_rows_set)
  have swapped: "(u, v) \<in> set ?swap \<longleftrightarrow> v \<in> set (match_user g a) \<and> u \<in> set (match_user g b)"
    for u v
    by (auto simp: friendship_rows_set)
  have d1: "distinct ?rows"
    by (rule friendship_rows_distinct)
  have "inj_on (\<lambda>(u, v). (v, u)) (set ?rows)"
    by (auto simp: inj_on_def)
  with d1 have d2: "distinct ?swap"
    by (simp add: distinct_map)
  have x1: "p \<notin> set ?rows" if "p \<in> set (friend_pairs g)" for p
  proof (cases p)
    case (Pair u v)
    with that nf show ?thesis
      by (auto simp: rows has_friend_pairs)
  qed
  have x2: "p \<notin> set ?swap" if "p \<in> set (friend_pairs g)" for p
  proof (cases p)
    case (Pair u v)
    with that nf show ?thesis
      using swapped [of u v] by (auto simp: has_friend_pairs simp del: set_map)
  qed
  have x3: "p \<notin> set ?swap" if "p \<in> set ?rows" for p
  proof (cases p)
    case (Pair u v)
    with that have "u \<in> set (match_user g a)" "v \<in> set (match_user g b)"
      by (simp_all add: rows)
    with apart have "\<not> (v \<in> set (match_user g a) \<and> u \<in> set (match_user g b))"
      by blast
    then show ?thesis
      unfolding Pair swapped by simp
  qed
  have simple: "distinct (friend_pairs g @ ?rows @ ?swap)"
  proof -
    have "set ?rows \<inter> set ?swap = {}"
      using x3 by blast
    moreover have "set (friend_pairs g) \<inter> set (?rows @ ?swap) = {}"
      using x1 x2 unfolding set_append by blast
    ultimately show ?thesis
      using assms(2) d1 d2 unfolding friends_simple_def distinct_append by simp
  qed
  have irr: "u \<noteq> v" if "(u, v) \<in> set (friend_pairs g @ ?rows @ ?swap)" for u v
  proof -
    from that consider "(u, v) \<in> set (friend_pairs g)" | "(u, v) \<in> set ?rows"
      | "(u, v) \<in> set ?swap"
      unfolding set_append by blast
    then show ?thesis
    proof cases
      case 1
      with assms(1) show ?thesis
        by (auto simp: friends_irreflexive_def)
    next
      case 2
      then show ?thesis
        using apart [of u v] by (simp add: rows)
    next
      case 3
      then show ?thesis
        using apart [of v u] swapped [of u v] by blast
    qed
  qed
  from simple irr show ?thesis
    unfolding friends_irreflexive_def friends_simple_def fp by blast
next
  case (AddInterest u x)
  with assms(4) have "friend_pairs g' = friend_pairs g"
    by (auto simp: add_interest_closed friend_pairs_append [where g = "merged g x" and h = g, simplified]
          friend_pairs_interest split: if_splits)
  with assms show ?thesis
    by (simp add: friends_irreflexive_def friends_simple_def)
next
  case ClearDatabase
  with assms(4) show ?thesis
    by (auto simp: clear_database_def empty_graph_def friends_irreflexive_def
          friends_simple_def friend_pairs_def)
qed

lemma disciplined_run:
  assumes "disciplined g cs" "run g cs = Inr g'"
    and "friends_irreflexive g" "friends_simple g"
  shows "friends_irreflexive g' \<and> friends_simple g'"
  using assms
proof (induction cs arbitrary: g)
  case Nil
  then show ?case by simp
next
  case (Cons c cs)
  from Cons.prems(2) obtain h where h: "exec g c = Inr h" "run h cs = Inr g'"
    by (auto split: sum.splits)
  from Cons.prems(1) h(1) have ok: "ok_call g c" and d: "disciplined h cs"
    by simp_all
  from ok_step [OF Cons.prems(3,4) ok h(1)]
  have "friends_irreflexive h" "friends_simple h"
    by simp_all
  with Cons.IH [OF d h(2)] show ?case
    by simp
qed

text \<open>
  C9, as the code has it: \<open>add_friendship\<close> appends both directions for every call on
  existing users and checks nothing. The friendships are irreflexive and without
  parallel relationships after every sequence of calls of a client that befriends only
  two different ids whose users are not friends yet.
\<close>

theorem disciplined_friendships_are_simple:
  assumes "disciplined empty_graph cs" and "run empty_graph cs = Inr g"
  shows "friends_irreflexive g \<and> friends_simple g"
proof -
  have "friends_irreflexive empty_graph" "friends_simple empty_graph"
    by (simp_all add: friends_irreflexive_def friends_simple_def friend_pairs_def
          empty_graph_def)
  from disciplined_run [OF assms this] show ?thesis
    by simp
qed

theorem disciplined_friendships_are_simple_witness:
  "disciplined empty_graph
     [CreateUser ''alice'' ''Alice Johnson'' 28 ''New York'' 0,
      CreateUser ''bob'' ''Bob Smith'' 32 ''San Francisco'' 1,
      AddFriendship ''alice'' ''bob'' None ''2024-01-01'']
   \<and> run empty_graph
     [CreateUser ''alice'' ''Alice Johnson'' 28 ''New York'' 0,
      CreateUser ''bob'' ''Bob Smith'' 32 ''San Francisco'' 1,
      AddFriendship ''alice'' ''bob'' None ''2024-01-01''] = Inr two_friends
   \<and> friends_irreflexive two_friends \<and> friends_simple two_friends"
proof -
  let ?cs = "[CreateUser ''alice'' ''Alice Johnson'' 28 ''New York'' 0,
      CreateUser ''bob'' ''Bob Smith'' 32 ''San Francisco'' 1,
      AddFriendship ''alice'' ''bob'' None ''2024-01-01'']"
  have d: "disciplined empty_graph ?cs"
    by code_simp
  have r: "run empty_graph ?cs = Inr two_friends"
    by code_simp
  from disciplined_friendships_are_simple [OF d r] d r show ?thesis
    by simp
qed

text \<open>
  The claim C9 as stated fails: a friendship of \<open>alice\<close> with herself is stored as two
  loops, and a friendship added twice is stored twice.
\<close>

theorem friendships_not_simple_counterexample:
  "run empty_graph [CreateUser ''alice'' ''Alice Johnson'' 28 ''New York'' 0,
                    AddFriendship ''alice'' ''alice'' None ''2024-01-01''] = Inr self_friend
   \<and> has_friend self_friend 0 0
   \<and> \<not> friends_irreflexive self_friend
   \<and> \<not> friends_simple self_friend
   \<and> run empty_graph [CreateUser ''alice'' ''Alice Johnson'' 28 ''New York'' 0,
                    CreateUser ''bob'' ''Bob Smith'' 32 ''San Francisco'' 1,
                    AddFriendship ''alice'' ''bob'' None ''2024-01-01'',
                    AddFriendship ''alice'' ''bob'' None ''2024-02-02''] = Inr twice_friends
   \<and> \<not> friends_simple twice_friends"
  by code_simp

section \<open>Two hops\<close>

lemma friend_step_has_friend: "(k, b) \<in> set (friend_steps g a) \<Longrightarrow> has_friend g a b"
  by (force simp: has_friend_def friends_of_def)

lemma has_friend_step: "has_friend g a b \<Longrightarrow> \<exists>k. (k, b) \<in> set (friend_steps g a)"
  by (auto simp: has_friend_def friends_of_def)

lemma two_hops_set:
  "set (two_hops g u) =
     {(f, c). \<exists>k1 k2. (k1, f) \<in> set (friend_steps g u) \<and> (k2, c) \<in> set (friend_steps g f) \<and> k1 \<noteq> k2}"
  unfolding two_hops_def by (auto split: if_splits) blast

lemma two_hops_iff:
  assumes "c \<noteq> u"
  shows "(f, c) \<in> set (two_hops g u) \<longleftrightarrow> has_friend g u f \<and> has_friend g f c"
proof
  assume "(f, c) \<in> set (two_hops g u)"
  then obtain k1 k2 where "(k1, f) \<in> set (friend_steps g u)" "(k2, c) \<in> set (friend_steps g f)"
    unfolding two_hops_set by blast
  then show "has_friend g u f \<and> has_friend g f c"
    by (blast intro: friend_step_has_friend)
next
  assume h: "has_friend g u f \<and> has_friend g f c"
  then obtain k1 k2 where k: "(k1, f) \<in> set (friend_steps g u)" "(k2, c) \<in> set (friend_steps g f)"
    by (blast dest: has_friend_step)
  have "k1 \<noteq> k2"
  proof
    assume "k1 = k2"
    with k have "src (edges g ! k1) = u" "src (edges g ! k1) = f"
        "dst (edges g ! k1) = f" "dst (edges g ! k1) = c"
      by (simp_all add: friend_steps_set)
    with assms show False by simp
  qed
  with k show "(f, c) \<in> set (two_hops g u)"
    unfolding two_hops_set by blast
qed

lemma second_hops_mem:
  "c \<in> set (second_hops g u)
     \<longleftrightarrow> (\<exists>f. (f, c) \<in> set (two_hops g u)) \<and> \<not> has_friend g u c \<and> u \<noteq> c"
  unfolding second_hops_def by (auto split: if_splits)

lemma second_hops_set: "set (second_hops g u) = second_degree g u"
proof -
  have "c \<in> set (second_hops g u) \<longleftrightarrow> c \<in> second_degree g u" for c
  proof (cases "c = u")
    case True
    then show ?thesis
      by (simp add: second_hops_mem second_degree_def)
  next
    case False
    then show ?thesis
      unfolding second_hops_mem second_degree_def mem_Collect_eq
      using two_hops_iff [OF False, of _ g] by blast
  qed
  then show ?thesis by blast
qed

section \<open>Statistics\<close>

lemma optional_match_ne: "optional_match xs \<noteq> []"
  by (simp add: optional_match_def)

lemma count_distinct_card: "count_distinct xs = card {v. Some v \<in> set xs}"
proof -
  have "set (concat (map (\<lambda>x. case x of None \<Rightarrow> [] | Some v \<Rightarrow> [v]) xs)) = {v. Some v \<in> set xs}"
    by (auto split: option.splits)
  then show ?thesis
    by (simp add: count_distinct_def length_remdups_card_conv)
qed

lemma Some_in_optional_match: "Some v \<in> set (optional_match xs) \<longleftrightarrow> v \<in> set xs"
  by (auto simp: optional_match_def)

lemma statistics_rows_concat: "statistics_rows g U = concat (map (user_rows g) (match_user g U))"
  by (simp add: statistics_rows_def user_rows_def [abs_def])

lemma user_rows_set:
  "set (user_rows g u) = {u} \<times> set (optional_match (friends_of g u))
      \<times> set (optional_match (interests_of g u)) \<times> set (optional_match (second_hops g u))"
  by (auto simp: user_rows_def)

lemma user_rows_ne: "user_rows g u \<noteq> []"
proof -
  obtain f i c where "f \<in> set (optional_match (friends_of g u))"
     "i \<in> set (optional_match (interests_of g u))" "c \<in> set (optional_match (second_hops g u))"
    using optional_match_ne by (metis last_in_set)
  then have "(u, f, i, c) \<in> set (user_rows g u)"
    by (simp add: user_rows_set)
  then show ?thesis by auto
qed

lemma column_images:
  fixes F :: "'a set" and I :: "'b set" and C :: "'c set"
  assumes "F \<noteq> {}" "I \<noteq> {}" "C \<noteq> {}"
  shows "(\<lambda>(u, f, i, c). f) ` ({u} \<times> F \<times> I \<times> C) = F"
    and "(\<lambda>(u, f, i, c). i) ` ({u} \<times> F \<times> I \<times> C) = I"
    and "(\<lambda>(u, f, i, c). c) ` ({u} \<times> F \<times> I \<times> C) = C"
proof -
  from assms obtain f0 i0 c0 where ne: "f0 \<in> F" "i0 \<in> I" "c0 \<in> C"
    by blast
  show "(\<lambda>(u, f, i, c). f) ` ({u} \<times> F \<times> I \<times> C) = F"
  proof (intro equalityI subsetI)
    fix f assume "f \<in> F"
    then have "(u, f, i0, c0) \<in> {u} \<times> F \<times> I \<times> C"
      using ne by simp
    then show "f \<in> (\<lambda>(u, f, i, c). f) ` ({u} \<times> F \<times> I \<times> C)"
      by (rule rev_image_eqI) simp
  qed auto
  show "(\<lambda>(u, f, i, c). i) ` ({u} \<times> F \<times> I \<times> C) = I"
  proof (intro equalityI subsetI)
    fix i assume "i \<in> I"
    then have "(u, f0, i, c0) \<in> {u} \<times> F \<times> I \<times> C"
      using ne by simp
    then show "i \<in> (\<lambda>(u, f, i, c). i) ` ({u} \<times> F \<times> I \<times> C)"
      by (rule rev_image_eqI) simp
  qed auto
  show "(\<lambda>(u, f, i, c). c) ` ({u} \<times> F \<times> I \<times> C) = C"
  proof (intro equalityI subsetI)
    fix c assume "c \<in> C"
    then have "(u, f0, i0, c) \<in> {u} \<times> F \<times> I \<times> C"
      using ne by simp
    then show "c \<in> (\<lambda>(u, f, i, c). c) ` ({u} \<times> F \<times> I \<times> C)"
      by (rule rev_image_eqI) simp
  qed auto
qed

lemma optional_match_set_ne: "set (optional_match xs) \<noteq> {}"
  using optional_match_ne [of xs] by simp

lemma user_rows_columns:
  "{v. Some v \<in> set (map (\<lambda>(u, f, i, c). f) (user_rows g u))} = set (friends_of g u)"
  "{v. Some v \<in> set (map (\<lambda>(u, f, i, c). i) (user_rows g u))} = set (interests_of g u)"
  "{v. Some v \<in> set (map (\<lambda>(u, f, i, c). c) (user_rows g u))} = set (second_hops g u)"
  by (simp_all only: set_map user_rows_set column_images [OF optional_match_set_ne
        optional_match_set_ne optional_match_set_ne] Some_in_optional_match Collect_mem_eq)

lemma remdups_map_const:
  "xs \<noteq> [] \<Longrightarrow> \<forall>x \<in> set xs. f x = a \<Longrightarrow> remdups (map f xs) = [a]"
proof (induction xs)
  case Nil
  then show ?case by simp
next
  case (Cons x xs)
  show ?case
  proof (cases "xs = []")
    case True
    with Cons.prems show ?thesis by simp
  next
    case False
    with Cons have "remdups (map f xs) = [a]" by simp
    moreover have "f x \<in> set (map f xs)"
      using False Cons.prems(2) by (cases xs) auto
    ultimately show ?thesis by simp
  qed
qed

lemma statistics_unique_user:
  assumes "match_user g U = [u]"
  shows "get_network_statistics g U =
           Some \<lparr>stat_name = name_of (nodes g ! u),
                 friend_count = card (set (friends_of g u)),
                 interest_count = card (set (interests_of g u)),
                 potential_connections = card (second_degree g u)\<rparr>"
proof -
  have rows: "statistics_rows g U = user_rows g u"
    by (simp add: statistics_rows_concat assms)
  have fst_u: "\<forall>r \<in> set (user_rows g u). name_of (nodes g ! fst r) = name_of (nodes g ! u)"
    by (auto simp: user_rows_set)
  have names: "remdups (map (\<lambda>r. name_of (nodes g ! fst r)) (user_rows g u)) = [name_of (nodes g ! u)]"
    using user_rows_ne fst_u by (rule remdups_map_const)
  have grp: "[r \<leftarrow> user_rows g u. name_of (nodes g ! fst r) = name_of (nodes g ! u)] = user_rows g u"
    using fst_u by (simp add: filter_id_conv)
  have "statistics_records g U =
          [\<lparr>stat_name = name_of (nodes g ! u),
            friend_count = count_distinct (map (\<lambda>(u, f, i, c). f) (user_rows g u)),
            interest_count = count_distinct (map (\<lambda>(u, f, i, c). i) (user_rows g u)),
            potential_connections = count_distinct (map (\<lambda>(u, f, i, c). c) (user_rows g u))\<rparr>]"
    by (simp add: statistics_records_def rows names grp Let_def)
  moreover have "count_distinct (map (\<lambda>(u, f, i, c). f) (user_rows g u)) = card (set (friends_of g u))"
    by (simp only: count_distinct_card user_rows_columns)
  moreover have "count_distinct (map (\<lambda>(u, f, i, c). i) (user_rows g u)) = card (set (interests_of g u))"
    by (simp only: count_distinct_card user_rows_columns)
  moreover have "count_distinct (map (\<lambda>(u, f, i, c). c) (user_rows g u)) = card (second_degree g u)"
    by (simp only: count_distinct_card user_rows_columns second_hops_set)
  ultimately show ?thesis
    by (simp add: get_network_statistics_def)
qed

lemma statistics_rows_empty: "statistics_rows g U = [] \<longleftrightarrow> match_user g U = []"
  using user_rows_ne by (auto simp: statistics_rows_concat)

lemma statistics_records_empty: "statistics_records g U = [] \<longleftrightarrow> match_user g U = []"
  by (simp add: statistics_records_def Let_def statistics_rows_empty)

lemma statistics_rows_fst:
  "r \<in> set (statistics_rows g U) \<Longrightarrow> fst r \<in> set (match_user g U)"
  by (auto simp: statistics_rows_concat user_rows_set)

lemma statistics_records_name:
  assumes "st \<in> set (statistics_records g U)"
  shows "\<exists>u \<in> set (match_user g U). stat_name st = name_of (nodes g ! u)"
proof -
  from assms have "stat_name st \<in> set (map (\<lambda>r. name_of (nodes g ! fst r)) (statistics_rows g U))"
    unfolding statistics_records_def Let_def by (auto intro!: rev_image_eqI)
  then obtain r where "r \<in> set (statistics_rows g U)" "stat_name st = name_of (nodes g ! fst r)"
    by auto
  with statistics_rows_fst show ?thesis
    by blast
qed

lemma second_degree_no_friends: "friends_of g u = [] \<Longrightarrow> second_degree g u = {}"
  by (auto simp: second_degree_def has_friend_def)

text \<open>
  C10: \<open>get_network_statistics\<close> returns the empty result exactly when no \<open>User\<close> node
  has the id. Otherwise it returns a record whose name is the name of a node with that
  id; when the id names one node, the record holds that node's name, the number of its
  friends and the number of its interests, the friend count and the potential
  connections being 0 when it has no friend and the interest count being 0 when it has
  no interest.
\<close>

theorem statistics_empty_only_for_unknown_user:
  "(get_network_statistics g U = None \<longleftrightarrow> match_user g U = [])
   \<and> (\<forall>st. get_network_statistics g U = Some st
          \<longrightarrow> (\<exists>u \<in> set (match_user g U). stat_name st = name_of (nodes g ! u)))
   \<and> (\<forall>u. match_user g U = [u]
          \<longrightarrow> (\<exists>st. get_network_statistics g U = Some st
                 \<and> stat_name st = name_of (nodes g ! u)
                 \<and> friend_count st = card (set (friends_of g u))
                 \<and> interest_count st = card (set (interests_of g u))
                 \<and> (friends_of g u = [] \<longrightarrow> friend_count st = 0 \<and> potential_connections st = 0)
                 \<and> (interests_of g u = [] \<longrightarrow> interest_count st = 0)))"
proof (intro conjI allI impI)
  show "get_network_statistics g U = None \<longleftrightarrow> match_user g U = []"
    using statistics_records_empty [of g U]
    by (cases "statistics_records g U") (simp_all add: get_network_statistics_def)
next
  fix st assume "get_network_statistics g U = Some st"
  then have "st \<in> set (statistics_records g U)"
    by (auto simp: get_network_statistics_def split: list.splits)
  then show "\<exists>u \<in> set (match_user g U). stat_name st = name_of (nodes g ! u)"
    by (rule statistics_records_name)
next
  fix u assume "match_user g U = [u]"
  from statistics_unique_user [OF this] second_degree_no_friends [of g u]
  show "\<exists>st. get_network_statistics g U = Some st
                 \<and> stat_name st = name_of (nodes g ! u)
                 \<and> friend_count st = card (set (friends_of g u))
                 \<and> interest_count st = card (set (interests_of g u))
                 \<and> (friends_of g u = [] \<longrightarrow> friend_count st = 0 \<and> potential_connections st = 0)
                 \<and> (interests_of g u = [] \<longrightarrow> interest_count st = 0)"
    by auto
qed

theorem statistics_empty_only_for_unknown_user_witness:
  "get_network_statistics one_user ''ghost'' = None
   \<and> get_network_statistics one_user ''alice''
       = Some \<lparr>stat_name = ''Alice Johnson'', friend_count = 0, interest_count = 0,
               potential_connections = 0\<rparr>"
proof -
  have m: "match_user one_user ''ghost'' = []" "match_user one_user ''alice'' = [0]"
    by (simp_all add: match_user_def one_user_def)
  have e: "friends_of one_user 0 = []" "interests_of one_user 0 = []"
    by (simp_all add: friends_of_def friend_steps_def interests_of_def one_user_def)
  have n: "name_of (nodes one_user ! 0) = ''Alice Johnson''"
    by (simp add: one_user_def)
  from statistics_empty_only_for_unknown_user [of one_user "''ghost''"] m(1)
  have a: "get_network_statistics one_user ''ghost'' = None"
    by simp
  from statistics_empty_only_for_unknown_user [of one_user "''alice''"] m(2)
  obtain st where "get_network_statistics one_user ''alice'' = Some st"
      "stat_name st = name_of (nodes one_user ! 0)"
      "friend_count st = card (set (friends_of one_user 0))"
      "interest_count st = card (set (interests_of one_user 0))"
      "friends_of one_user 0 = [] \<longrightarrow> friend_count st = 0 \<and> potential_connections st = 0"
    by blast
  with e n have "get_network_statistics one_user ''alice''
       = Some \<lparr>stat_name = ''Alice Johnson'', friend_count = 0, interest_count = 0,
               potential_connections = 0\<rparr>"
    by simp
  with a show ?thesis
    by simp
qed

section \<open>Graphs built by the methods are well formed\<close>

lemma nodes_merged_nth: "i < length (nodes g) \<Longrightarrow> nodes (merged g x) ! i = nodes g ! i"
  by (simp add: merged_def nth_append)

lemma length_nodes_merged: "length (nodes g) \<le> length (nodes (merged g x))"
  by (simp add: merged_def)

lemma match_interest_bound:
  "i \<in> set (match_interest g x) \<Longrightarrow> i < length (nodes g) \<and> is_Interest (nodes g ! i)"
proof -
  have "has_interest_name x n \<Longrightarrow> is_Interest n" for n
    by (cases n) auto
  then show "i \<in> set (match_interest g x) \<Longrightarrow> i < length (nodes g) \<and> is_Interest (nodes g ! i)"
    by (simp add: match_interest_def)
qed

lemma wf_graph_exec:
  assumes "wf_graph g" "exec g c = Inr g'"
  shows "wf_graph g'"
proof (cases c)
  case (CreateUser i n a l t)
  with assms show ?thesis
    by (auto simp: create_user_def wf_graph_def nth_append less_Suc_eq split: if_splits)
next
  case (AddFriendship a b s t)
  let ?s = "case s of None \<Rightarrow> t | Some x \<Rightarrow> x"
  from AddFriendship assms have g': "nodes g' = nodes g"
      "edges g' = edges g @ friendship_edges ?s (friendship_rows g a b)"
    by (auto simp add: add_friendship_edges)
  have new: "src e < length (nodes g) \<and> dst e < length (nodes g) \<and> is_User (nodes g ! src e)
        \<and> is_User (nodes g ! dst e) \<and> is_FRIENDS_WITH (kind e)"
    if "e \<in> set (friendship_edges ?s (friendship_rows g a b))" for e
  proof -
    from that have k: "kind e = FRIENDS_WITH ?s"
      and "(src e \<in> set (match_user g a) \<and> dst e \<in> set (match_user g b))
         \<or> (dst e \<in> set (match_user g a) \<and> src e \<in> set (match_user g b))"
      by (auto simp: friendship_edges_set friendship_rows_set)
    then obtain i j where "src e \<in> set (match_user g i)" "dst e \<in> set (match_user g j)"
      by blast
    then show ?thesis
      using k match_user_bound has_user_id_is_User by (metis rel.disc(1))
  qed
  show ?thesis
    unfolding wf_graph_def g'
  proof
    fix e assume "e \<in> set (edges g @ friendship_edges ?s (friendship_rows g a b))"
    then consider "e \<in> set (edges g)" | "e \<in> set (friendship_edges ?s (friendship_rows g a b))"
      by auto
    then show "src e < length (nodes g) \<and> dst e < length (nodes g) \<and> is_User (nodes g ! src e)
        \<and> (if is_FRIENDS_WITH (kind e) then is_User (nodes g ! dst e)
            else is_Interest (nodes g ! dst e))"
    proof cases
      case 1
      with assms(1) show ?thesis by (simp add: wf_graph_def)
    next
      case 2
      from new [OF this] show ?thesis by simp
    qed
  qed
next
  case (AddInterest u x)
  show ?thesis
  proof (cases "match_user g u = []")
    case True
    with AddInterest assms show ?thesis
      by (simp add: add_interest_closed)
  next
    case False
    let ?new = "[\<lparr>src = a, kind = INTERESTED_IN, dst = i\<rparr>.
                      a \<leftarrow> match_user g u, i \<leftarrow> match_interest (merged g x) x]"
    from False AddInterest assms have g': "nodes g' = nodes (merged g x)"
        "edges g' = edges g @ ?new"
      by (auto simp: add_interest_closed)
    have new: "src e < length (nodes g) \<and> dst e < length (nodes (merged g x))
        \<and> is_Interest (nodes (merged g x) ! dst e) \<and> is_User (nodes g ! src e)
        \<and> \<not> is_FRIENDS_WITH (kind e)"
      if "e \<in> set ?new" for e
    proof -
      from that obtain a i where "a \<in> set (match_user g u)"
          "i \<in> set (match_interest (merged g x) x)" "e = \<lparr>src = a, kind = INTERESTED_IN, dst = i\<rparr>"
        by auto
      then show ?thesis
        using match_user_bound [of a g u] match_interest_bound [of i "merged g x" x]
          has_user_id_is_User by auto
    qed
    show ?thesis
      unfolding wf_graph_def g'
    proof
      fix e assume "e \<in> set (edges g @ ?new)"
      then consider "e \<in> set (edges g)" | "e \<in> set ?new"
        by auto
      then show "src e < length (nodes (merged g x)) \<and> dst e < length (nodes (merged g x))
          \<and> is_User (nodes (merged g x) ! src e)
          \<and> (if is_FRIENDS_WITH (kind e) then is_User (nodes (merged g x) ! dst e)
              else is_Interest (nodes (merged g x) ! dst e))"
      proof cases
        case 1
        with assms(1) have "src e < length (nodes g)" "dst e < length (nodes g)"
            "is_User (nodes g ! src e)"
            "if is_FRIENDS_WITH (kind e) then is_User (nodes g ! dst e)
              else is_Interest (nodes g ! dst e)"
          by (simp_all add: wf_graph_def)
        then show ?thesis
          using length_nodes_merged [of g x] by (simp add: nodes_merged_nth)
      next
        case 2
        from new [OF this] show ?thesis
          using length_nodes_merged [of g x] by (simp add: nodes_merged_nth)
      qed
    qed
  qed
next
  case ClearDatabase
  with assms show ?thesis
    by (auto simp: clear_database_def empty_graph_def wf_graph_def)
qed

lemma wf_graph_run:
  assumes "run empty_graph cs = Inr g"
  shows "wf_graph g"
  using assms
proof (rule run_invariant)
  show "wf_graph empty_graph"
    by (simp add: wf_graph_def empty_graph_def)
qed (rule wf_graph_exec)

lemma wf_friend_is_user:
  assumes "wf_graph g" "has_friend g a b"
  shows "b < length (nodes g) \<and> is_User (nodes g ! b)"
proof -
  from assms(2) obtain e where "e \<in> set (edges g)" "dst e = b" "is_FRIENDS_WITH (kind e)"
    by (auto simp: has_friend_iff)
  with assms(1) show ?thesis
    by (auto simp: wf_graph_def)
qed

section \<open>Friends of friends\<close>

lemma length_filter_positions:
  "length [k \<leftarrow> [0..<length xs]. P (xs ! k)] = length (filter P xs)"
proof (induction xs rule: rev_induct)
  case Nil
  show ?case by simp
next
  case (snoc x xs)
  have "[k \<leftarrow> [0..<length xs]. P ((xs @ [x]) ! k)] = [k \<leftarrow> [0..<length xs]. P (xs ! k)]"
    by (intro filter_cong) (simp_all add: nth_append)
  with snoc show ?case
    by simp
qed

lemma ids_unique_code:
  assumes "distinct [uid n. n \<leftarrow> nodes g, is_User n]"
  shows "ids_unique g"
proof -
  have uid: "is_User n \<and> uid n = i" if "has_user_id i n" for i n
    using that by (rule has_user_id_is_User)
  have "distinct [uid n. n \<leftarrow> xs, is_User n] \<Longrightarrow> length (filter (has_user_id i) xs) \<le> 1"
    for i and xs :: "node list"
  proof (induction xs)
    case Nil
    show ?case by simp
  next
    case (Cons x xs)
    show ?case
    proof (cases "has_user_id i x")
      case True
      with uid have x: "is_User x" "uid x = i" by blast+
      with Cons.prems have "i \<notin> set [uid n. n \<leftarrow> xs, is_User n]"
        by simp
      then have "\<forall>n \<in> set xs. \<not> has_user_id i n"
        using uid by force
      then have "filter (has_user_id i) xs = []"
        by (simp add: filter_empty_conv)
      with True show ?thesis by simp
    next
      case False
      with Cons show ?thesis
        by (cases "is_User x") simp_all
    qed
  qed
  with assms have "length (filter (has_user_id i) (nodes g)) \<le> 1" for i
    by blast
  then show ?thesis
    by (simp add: ids_unique_def match_user_def length_filter_positions)
qed

lemma fof_rows_unique:
  assumes "match_user g U = [u]"
  shows "fof_rows g U =
     [(u, f, c). (f, c) \<leftarrow> two_hops g u,
        is_User (nodes g ! c) \<and> u \<noteq> c \<and> \<not> has_friend g u c]"
  by (simp add: fof_rows_def assms)

lemma fof_rows_mem:
  assumes "match_user g U = [u]" "wf_graph g"
  shows "(v, f, c) \<in> set (fof_rows g U) \<longleftrightarrow> v = u \<and> c \<in> second_degree g u \<and> f \<in> mutual g u c"
proof -
  have "(v, f, c) \<in> set (fof_rows g U)
          \<longleftrightarrow> v = u \<and> (f, c) \<in> set (two_hops g u) \<and> is_User (nodes g ! c) \<and> u \<noteq> c
               \<and> \<not> has_friend g u c"
    unfolding fof_rows_unique [OF assms(1)] by (auto split: if_splits)
  also have "\<dots> \<longleftrightarrow> v = u \<and> c \<in> second_degree g u \<and> f \<in> mutual g u c"
  proof (cases "c = u")
    case True
    then show ?thesis by (auto simp: second_degree_def)
  next
    case False
    show ?thesis
      unfolding two_hops_iff [OF False] second_degree_def mutual_def mem_Collect_eq
      using wf_friend_is_user [OF assms(2)] False by blast
  qed
  finally show ?thesis .
qed

lemma second_degree_is_user:
  assumes "wf_graph g" "c \<in> second_degree g u"
  shows "c < length (nodes g) \<and> is_User (nodes g ! c)"
  using assms wf_friend_is_user by (auto simp: second_degree_def)

lemma user_in_match_user:
  assumes "c < length (nodes g)" "is_User (nodes g ! c)"
  shows "c \<in> set (match_user g (uid (nodes g ! c)))"
proof -
  have "has_user_id (uid n) n" if "is_User n" for n
    using that by (cases n) auto
  with assms show ?thesis
    by (simp add: match_user_def)
qed

lemma fof_key_inj:
  assumes "wf_graph g" "ids_unique g" "c \<in> second_degree g u" "d \<in> second_degree g u"
    and "fof_key g c = fof_key g d"
  shows "c = d"
proof -
  let ?i = "uid (nodes g ! c)"
  have "c \<in> set (match_user g ?i)"
    using second_degree_is_user [OF assms(1,3)] by (simp add: user_in_match_user)
  moreover have "d \<in> set (match_user g ?i)"
    using second_degree_is_user [OF assms(1,4)] assms(5)
    by (simp add: user_in_match_user fof_key_def)
  moreover have "length (match_user g ?i) \<le> 1"
    using assms(2) by (simp add: ids_unique_def)
  ultimately show ?thesis
    by (cases "match_user g ?i") auto
qed

lemma second_degree_finite: "finite (second_degree g u)"
  by (metis second_hops_set List.finite_set)

lemma mutual_finite: "finite (mutual g u c)"
proof -
  have "mutual g u c \<subseteq> set (friends_of g u)"
    by (auto simp: mutual_def has_friend_def)
  then show ?thesis
    by (rule finite_subset) simp
qed


lemma fof_groups_map: "fof_groups g U = map (fof_group g U) (fof_keys g U)"
  by (simp add: fof_groups_def fof_keys_def fof_group_def [abs_def] Let_def case_prod_unfold)


lemma fof_keys_set:
  assumes "match_user g U = [u]" "wf_graph g"
  shows "set (fof_keys g U) = fof_key g ` second_degree g u"
proof (intro equalityI subsetI)
  fix k assume "k \<in> set (fof_keys g U)"
  then obtain v f c where "(v, f, c) \<in> set (fof_rows g U)" "k = fof_key g c"
    by (auto simp: fof_keys_def)
  then show "k \<in> fof_key g ` second_degree g u"
    by (auto simp: fof_rows_mem [OF assms])
next
  fix k assume "k \<in> fof_key g ` second_degree g u"
  then obtain c where c: "c \<in> second_degree g u" "k = fof_key g c"
    by blast
  then obtain f where "f \<in> mutual g u c"
    by (auto simp: second_degree_def mutual_def)
  with c have "(u, f, c) \<in> set (fof_rows g U)"
    by (simp add: fof_rows_mem [OF assms])
  with c(2) show "k \<in> set (fof_keys g U)"
    by (force simp: fof_keys_def)
qed




lemma fof_groups_length:
  assumes "match_user g U = [u]" "wf_graph g" "ids_unique g"
  shows "length (fof_groups g U) = card (second_degree g u)"
proof -
  have "inj_on (fof_key g) (second_degree g u)"
    using assms by (auto intro!: inj_onI dest: fof_key_inj)
  then have "card (fof_key g ` second_degree g u) = card (second_degree g u)"
    by (rule card_image)
  moreover have "length (fof_keys g U) = card (set (fof_keys g U))"
    by (simp add: fof_keys_def length_remdups_card_conv)
  ultimately show ?thesis
    by (simp add: fof_groups_map fof_keys_set [OF assms(1,2)])
qed


lemma run_star: "run empty_graph star_calls = Inr star"
  by code_simp


lemma star_hops: "second_hops star 0 = [2, 3, 4, 5, 6, 7, 8, 9, 10, 11, 12]"
  by code_simp

lemma star_second_degree: "second_degree star 0 = {2, 3, 4, 5, 6, 7, 8, 9, 10, 11, 12}"
  unfolding second_hops_set [symmetric] star_hops by simp

lemma order_by_desc_set [simp]: "set (order_by_desc f xs) = set xs"
  by (simp add: order_by_desc_def)

lemma order_by_desc_length [simp]: "length (order_by_desc f xs) = length xs"
  by (simp add: order_by_desc_def)

lemma order_by_desc_sorted: "sorted_wrt (\<lambda>a b. f b \<le> f a) (order_by_desc f xs)"
proof -
  have "sorted (map (\<lambda>x. - int (f x)) (order_by_desc f xs))"
    unfolding order_by_desc_def by (rule sorted_sort_key)
  then show ?thesis
    by (simp add: sorted_wrt_map)
qed

lemma order_by_desc_distinct_map:
  "distinct (map h xs) \<Longrightarrow> distinct (map h (order_by_desc f xs))"
  by (simp add: distinct_map order_by_desc_def)






section \<open>Potential connections\<close>

lemma star_ids_unique: "ids_unique star"
proof (rule ids_unique_code)
  show "distinct [uid n. n \<leftarrow> nodes star, is_User n]"
    by code_simp
qed

text \<open>
  C7: for a user id that names one node \<open>u\<close> of a graph built by the methods,
  \<open>potential_connections\<close> is the number of second-degree connections of \<open>u\<close>, the
  size of the set and not a sum of mutual-friend counts. With more than ten connections
  it exceeds ten while \<open>find_friends_of_friends\<close> returns no more than ten entries; and
  when user ids are unique it is the number of groups that \<open>find_friends_of_friends\<close>
  forms before \<open>LIMIT\<close> cuts the list.
\<close>

theorem potential_connections_counts_candidates:
  assumes "run empty_graph cs = Inr g" and "match_user g U = [u]"
  shows "\<exists>st. get_network_statistics g U = Some st
           \<and> potential_connections st = card (second_degree g u)
           \<and> (10 < card (second_degree g u)
                \<longrightarrow> 10 < potential_connections st
                  \<and> length (find_friends_of_friends g U) \<le> 10)
           \<and> (ids_unique g
                \<longrightarrow> potential_connections st = length (fof_groups g U)
                  \<and> length (find_friends_of_friends g U) = min 10 (potential_connections st))"
proof -
  have wf: "wf_graph g"
    using assms(1) by (rule wf_graph_run)
  have len: "length (fof_groups g U) = card (second_degree g u)" if "ids_unique g"
    by (rule fof_groups_length [OF assms(2) wf that])
  have "length (find_friends_of_friends g U) = min 10 (length (fof_groups g U))"
    by (simp add: find_friends_of_friends_def min.commute)
  with len statistics_unique_user [OF assms(2)] show ?thesis
    by simp
qed

theorem potential_connections_counts_candidates_witness:
  "run empty_graph star_calls = Inr star \<and> match_user star ''u0'' = [0]
   \<and> (\<exists>st. get_network_statistics star ''u0'' = Some st
          \<and> potential_connections st = 11
          \<and> length (fof_groups star ''u0'') = 11
          \<and> length (find_friends_of_friends star ''u0'') = 10)"
proof -
  have m: "match_user star ''u0'' = [0]"
    by code_simp
  have c: "card (second_degree star 0) = 11"
    by (simp add: star_second_degree)
  from potential_connections_counts_candidates [OF run_star m] star_ids_unique c run_star m
  show ?thesis
    by auto
qed

section \<open>Communities\<close>

lemma concat_if_filter: "[f e. e \<leftarrow> es, Q e] = map f (filter Q es)"
  by (induction es) auto

lemma rows_of_one:
  "[u. (j, u) \<leftarrow> [(i, src e). e \<leftarrow> es, Q e], j = i0]
     = (if i = i0 then [src e. e \<leftarrow> es, Q e] else [])"
  by (induction es) auto

lemma rows_of_many:
  "distinct xs \<Longrightarrow>
   [u. (j, u) \<leftarrow> [(i, src e). i \<leftarrow> xs, P i, e \<leftarrow> es, Q i e], j = i0]
     = (if i0 \<in> set xs \<and> P i0 then [src e. e \<leftarrow> es, Q i0 e] else [])"
proof (induction xs)
  case Nil
  show ?case by simp
next
  case (Cons x xs)
  then have IH: "[u. (j, u) \<leftarrow> [(i, src e). i \<leftarrow> xs, P i, e \<leftarrow> es, Q i e], j = i0]
     = (if i0 \<in> set xs \<and> P i0 then [src e. e \<leftarrow> es, Q i0 e] else [])"
    and nx: "x \<notin> set xs"
    by simp_all
  have one: "[u. (j, u) \<leftarrow> [(x, src e). e \<leftarrow> es, Q x e], j = i0]
     = (if x = i0 then [src e. e \<leftarrow> es, Q x e] else [])"
    by (rule rows_of_one)
  show ?case
  proof (cases "P x")
    case True
    have "[u. (j, u) \<leftarrow> [(i, src e). i \<leftarrow> x # xs, P i, e \<leftarrow> es, Q i e], j = i0]
        = [u. (j, u) \<leftarrow> [(x, src e). e \<leftarrow> es, Q x e], j = i0]
          @ [u. (j, u) \<leftarrow> [(i, src e). i \<leftarrow> xs, P i, e \<leftarrow> es, Q i e], j = i0]"
      using True by simp
    then show ?thesis
      unfolding one IH using nx True by auto
  next
    case False
    have "[u. (j, u) \<leftarrow> [(i, src e). i \<leftarrow> x # xs, P i, e \<leftarrow> es, Q i e], j = i0]
        = [u. (j, u) \<leftarrow> [(i, src e). i \<leftarrow> xs, P i, e \<leftarrow> es, Q i e], j = i0]"
      using False by simp
    then show ?thesis
      unfolding IH using False by auto
  qed
qed

lemma community_members:
  "[u. (j, u) \<leftarrow> community_rows g, j = i]
     = (if i \<in> interest_nodes g then map src (member_edges g i) else [])"
proof -
  have "[u. (j, u) \<leftarrow> community_rows g, j = i]
     = (if i \<in> set [0..<length (nodes g)] \<and> is_Interest (nodes g ! i)
        then [src e. e \<leftarrow> edges g,
                is_INTERESTED_IN (kind e) \<and> dst e = i \<and> is_User (nodes g ! src e)]
        else [])"
    unfolding community_rows_def by (rule rows_of_many) simp
  also have "[src e. e \<leftarrow> edges g,
                is_INTERESTED_IN (kind e) \<and> dst e = i \<and> is_User (nodes g ! src e)]
      = map src (member_edges g i)"
    unfolding member_edges_def by (rule concat_if_filter)
  finally show ?thesis
    by (simp add: interest_nodes_def)
qed


lemma community_of_eq:
  assumes "i \<in> interest_nodes g"
  shows "community_of g i =
           \<lparr>interest = name_of (nodes g ! i), csize = length (member_edges g i),
            members = map (\<lambda>e. name_of (nodes g ! src e)) (member_edges g i)\<rparr>"
proof -
  have "[name_of (nodes g ! u). (j, u) \<leftarrow> community_rows g, j = i]
          = map (\<lambda>u. name_of (nodes g ! u)) [u. (j, u) \<leftarrow> community_rows g, j = i]"
    by (simp add: map_concat comp_def case_prod_unfold if_distrib [of "map _"] cong: if_cong)
  then show ?thesis
    using assms by (simp add: community_of_def community_members comp_def)
qed

lemma community_rows_fst:
  "set (map fst (community_rows g)) = {i \<in> interest_nodes g. member_edges g i \<noteq> []}"
proof -
  have "i \<in> set (map fst (community_rows g)) \<longleftrightarrow> [u. (j, u) \<leftarrow> community_rows g, j = i] \<noteq> []" for i
    by (force split: if_splits)
  then have "i \<in> set (map fst (community_rows g))
               \<longleftrightarrow> i \<in> interest_nodes g \<and> member_edges g i \<noteq> []" for i
    unfolding community_members by simp
  then show ?thesis
    by blast
qed

lemma member_edges_append:
  "member_edges (g\<lparr>edges := es @ es'\<rparr>) i
     = member_edges (g\<lparr>edges := es\<rparr>) i @ member_edges (g\<lparr>edges := es'\<rparr>) i"
  by (simp add: member_edges_def)

lemma member_edges_mono_nodes:
  assumes "wf_graph g" "nodes g' = nodes g @ ns" "edges g' = edges g @ es"
  shows "member_edges g' i = member_edges g i @ member_edges (g'\<lparr>edges := es\<rparr>) i"
proof -
  have "is_User (nodes g' ! src e) = is_User (nodes g ! src e)" if "e \<in> set (edges g)" for e
    using assms(1,2) that by (simp add: wf_graph_def nth_append)
  then have "[e \<leftarrow> edges g. is_INTERESTED_IN (kind e) \<and> dst e = i \<and> is_User (nodes g' ! src e)]
           = member_edges g i"
    unfolding member_edges_def by (intro filter_cong) auto
  then show ?thesis
    by (simp add: member_edges_def assms(3))
qed

lemma interests_held_exec:
  assumes "wf_graph g" "interests_held g" "exec g c = Inr g'"
  shows "interests_held g'"
proof (cases c)
  case (CreateUser i n a l t)
  with assms(3) have g': "nodes g' = nodes g @ [User i n a l t]" "edges g' = edges g @ []"
    by (auto simp add: create_user_def split: if_splits)
  have "interest_nodes g' = interest_nodes g"
    by (auto simp: interest_nodes_def g' nth_append less_Suc_eq)
  then show ?thesis
    using assms(2) member_edges_mono_nodes [OF assms(1) g']
    by (simp add: interests_held_def)
next
  case (AddFriendship a b s t)
  with assms(3) obtain es where g': "nodes g' = nodes g @ []" "edges g' = edges g @ es"
    by (auto simp: add_friendship_edges)
  have "interest_nodes g' = interest_nodes g"
    by (simp add: interest_nodes_def g')
  then show ?thesis
    using assms(2) member_edges_mono_nodes [OF assms(1) g']
    by (simp add: interests_held_def)
next
  case (AddInterest u x)
  show ?thesis
  proof (cases "match_user g u = []")
    case True
    with AddInterest assms show ?thesis
      by (simp add: add_interest_closed)
  next
    case False
    let ?new = "[\<lparr>src = a, kind = INTERESTED_IN, dst = i\<rparr>.
                      a \<leftarrow> match_user g u, i \<leftarrow> match_interest (merged g x) x]"
    from False AddInterest assms(3) have ge: "nodes g' = nodes (merged g x)" "edges g' = edges g @ ?new"
      by (auto simp: add_interest_closed)
    obtain ns where ns: "nodes (merged g x) = nodes g @ ns"
        and ns_cases: "ns = [] \<or> (ns = [Interest x] \<and> match_interest (merged g x) x = [length (nodes g)])"
      by (cases "match_interest g x = []") (auto simp: merged_def match_interest_append)
    have g': "nodes g' = nodes g @ ns" "edges g' = edges g @ ?new"
      using ge ns by simp_all
    note mono = member_edges_mono_nodes [OF assms(1) g']
    show ?thesis
      unfolding interests_held_def
    proof
      fix i assume i: "i \<in> interest_nodes g'"
      show "member_edges g' i \<noteq> []"
      proof (cases "i < length (nodes g)")
        case True
        with i have "i \<in> interest_nodes g"
          by (simp add: interest_nodes_def g' nth_append)
        with assms(2) show ?thesis
          by (simp add: mono interests_held_def)
      next
        case False
        with i ns_cases have eq: "i = length (nodes g)" "ns = [Interest x]"
            "match_interest (merged g x) x = [length (nodes g)]"
          by (auto simp: interest_nodes_def g')
        from \<open>match_user g u \<noteq> []\<close> obtain a where a: "a \<in> set (match_user g u)"
          by (cases "match_user g u") auto
        then have au: "a < length (nodes g)" "is_User (nodes g ! a)"
          using match_user_bound [of a g u] has_user_id_is_User by blast+
        let ?e = "\<lparr>src = a, kind = INTERESTED_IN, dst = i\<rparr>"
        have "?e \<in> set ?new"
          using a eq by simp
        moreover have "is_User (nodes g' ! a)"
          using au by (simp add: g' nth_append)
        ultimately have "?e \<in> set (member_edges (g'\<lparr>edges := ?new\<rparr>) i)"
          unfolding member_edges_def by simp
        then show ?thesis
          unfolding mono by auto
      qed
    qed
  qed
next
  case ClearDatabase
  with assms show ?thesis
    by (auto simp: clear_database_def empty_graph_def interests_held_def interest_nodes_def)
qed

lemma interests_held_run:
  assumes "run empty_graph cs = Inr g"
  shows "interests_held g"
proof -
  have "wf_graph g \<and> interests_held g"
    using assms
  proof (rule run_invariant)
    show "wf_graph empty_graph \<and> interests_held empty_graph"
      by (simp add: wf_graph_def interests_held_def interest_nodes_def empty_graph_def)
  next
    fix h c h' assume "wf_graph h \<and> interests_held h" "exec h c = Inr h'"
    then show "wf_graph h' \<and> interests_held h'"
      using wf_graph_exec interests_held_exec by blast
  qed
  then show ?thesis by simp
qed

lemma community_records_set:
  assumes "run empty_graph cs = Inr g"
  shows "set (community_records g m)
           = {community_of g i | i. i \<in> interest_nodes g \<and> m \<le> int (length (member_edges g i))}"
proof -
  have held: "interests_held g"
    using assms by (rule interests_held_run)
  have keys: "set (remdups (map fst (community_rows g))) = interest_nodes g"
    using held by (auto simp: community_rows_fst interests_held_def simp del: set_map)
  have "set (community_records g m)
          = {c \<in> community_of g ` interest_nodes g. m \<le> int (csize c)}"
    unfolding community_records_def order_by_desc_set set_filter set_map keys ..
  also have "\<dots> = {community_of g i | i. i \<in> interest_nodes g \<and> m \<le> int (length (member_edges g i))}"
  proof -
    have "csize (community_of g i) = length (member_edges g i)" if "i \<in> interest_nodes g" for i
      using that by (simp add: community_of_eq)
    then show ?thesis
      by auto
  qed
  finally show ?thesis .
qed

lemma community_listed_iff:
  assumes "run empty_graph cs = Inr g" "i \<in> interest_nodes g"
  shows "community_of g i \<in> set (community_records g m) \<longleftrightarrow> m \<le> int (length (member_edges g i))"
proof
  assume "community_of g i \<in> set (community_records g m)"
  then obtain j where j: "j \<in> interest_nodes g" "m \<le> int (length (member_edges g j))"
      "community_of g i = community_of g j"
    unfolding community_records_set [OF assms(1)] by blast
  then have "csize (community_of g i) = csize (community_of g j)"
    by simp
  with j(1,2) assms(2) show "m \<le> int (length (member_edges g i))"
    by (simp add: community_of_eq)
next
  assume "m \<le> int (length (member_edges g i))"
  with assms(2) show "community_of g i \<in> set (community_records g m)"
    unfolding community_records_set [OF assms(1)] by blast
qed

lemma interest_name_inj:
  assumes "\<forall>y. length (match_interest g y) \<le> 1" "i \<in> interest_nodes g" "j \<in> interest_nodes g"
    and "name_of (nodes g ! i) = name_of (nodes g ! j)"
  shows "i = j"
proof -
  let ?x = "name_of (nodes g ! i)"
  have hn: "has_interest_name (name_of n) n" if "is_Interest n" for n
    using that by (cases n) auto
  have "i \<in> set (match_interest g ?x)"
    using assms(2) hn by (simp add: match_interest_def interest_nodes_def)
  moreover have "j \<in> set (match_interest g ?x)"
    using assms(3,4) hn by (simp add: match_interest_def interest_nodes_def)
  moreover have "length (match_interest g ?x) \<le> 1"
    using assms(1) by simp
  ultimately show ?thesis
    by (cases "match_interest g ?x") auto
qed

lemma community_records_distinct:
  assumes "run empty_graph cs = Inr g"
  shows "distinct (map interest (community_records g m))"
proof -
  let ?keys = "remdups (map fst (community_rows g))"
  have uniq: "\<forall>y. length (match_interest g y) \<le> 1"
    using assms by (rule interest_unique_run)
  have sub: "set ?keys \<subseteq> interest_nodes g"
    by (auto simp: community_rows_fst simp del: set_map)
  have "inj_on (\<lambda>i. interest (community_of g i)) (set ?keys)"
  proof (rule inj_onI)
    fix i j assume ij: "i \<in> set ?keys" "j \<in> set ?keys"
      and "interest (community_of g i) = interest (community_of g j)"
    from ij sub have mem: "i \<in> interest_nodes g" "j \<in> interest_nodes g"
      by blast+
    with \<open>interest (community_of g i) = interest (community_of g j)\<close>
    have "name_of (nodes g ! i) = name_of (nodes g ! j)"
      by (simp add: community_of_eq)
    with uniq mem show "i = j"
      by (blast intro: interest_name_inj)
  qed
  then have "distinct (map interest (map (community_of g) ?keys))"
    by (simp add: distinct_map comp_def)
  then have "distinct (map interest [c \<leftarrow> map (community_of g) ?keys. m \<le> int (csize c)])"
    by (rule distinct_map_filter)
  then show ?thesis
    unfolding community_records_def by (rule order_by_desc_distinct_map)
qed

lemma add_member:
  assumes "wf_graph g" "match_user g U = [u]" "match_interest g x = [i]"
  shows "\<exists>g'. add_interest g U x = Inr g' \<and> nodes g' = nodes g
          \<and> member_edges g' j = member_edges g j @ (if j = i then [\<lparr>src = u, kind = INTERESTED_IN, dst = i\<rparr>] else [])"
proof -
  let ?e = "\<lparr>src = u, kind = INTERESTED_IN, dst = i\<rparr>"
  let ?g' = "g\<lparr>edges := edges g @ [?e]\<rparr>"
  have mg: "merged g x = g"
    using assms(3) by (simp add: merged_def)
  have eq: "add_interest g U x = Inr ?g'"
    by (simp add: add_interest_closed assms(2,3) mg)
  have "is_User (nodes g ! u)"
    using match_user_bound [of u g U] has_user_id_is_User assms(2) by auto
  then have "member_edges (?g'\<lparr>edges := [?e]\<rparr>) j = (if j = i then [?e] else [])"
    by (auto simp: member_edges_def)
  moreover have "member_edges ?g' j = member_edges g j @ member_edges (?g'\<lparr>edges := [?e]\<rparr>) j"
    by (rule member_edges_mono_nodes [OF assms(1), where ns = "[]"]) simp_all
  ultimately show ?thesis
    using eq by simp
qed

lemma run_hikers: "run empty_graph hikers_calls = Inr hikers"
  by code_simp

lemma run_keen: "run empty_graph keen_calls = Inr keen"
  by code_simp

text \<open>
  What \<open>find_communities\<close> computes. It raises when the threshold does not fit 64 bits
  and returns the records of the statement otherwise. In a graph built by a sequence of
  calls these list an \<open>Interest\<close> node exactly when the number of its memberships, the \<open>INTERESTED_IN\<close>
  relationships that reach it from \<open>User\<close> nodes, is at least \<open>min_connections\<close>; the
  entry carries the node's name and that number as its size, and the number is the size
  of the incident user set whenever no user holds the interest twice. Only \<open>Interest\<close>
  nodes are listed, each once, ordered by size, largest first. An interest with exactly
  \<open>min_connections - 1\<close> memberships is left out, and it is listed after \<open>add_interest\<close>
  has added one more member.
\<close>

theorem communities_by_membership_count:
  assumes "run empty_graph cs = Inr g"
  shows "find_communities g m
           = (if int64 m then Inr (community_records g m) else Inl OverflowError)
       \<and> (\<forall>i \<in> interest_nodes g.
            (community_of g i \<in> set (community_records g m)
               \<longleftrightarrow> m \<le> int (length (member_edges g i)))
            \<and> interest (community_of g i) = name_of (nodes g ! i)
            \<and> csize (community_of g i) = length (member_edges g i)
            \<and> (distinct (map src (member_edges g i))
                 \<longrightarrow> length (member_edges g i) = card (interest_users g i)))
       \<and> set (community_records g m) \<subseteq> community_of g ` interest_nodes g
       \<and> distinct (map interest (community_records g m))
       \<and> sorted_wrt (\<lambda>a b. csize b \<le> csize a) (community_records g m)
       \<and> (\<forall>U u x i. match_user g U = [u] \<and> match_interest g x = [i]
              \<and> int (length (member_edges g i)) = m - 1
            \<longrightarrow> community_of g i \<notin> set (community_records g m)
              \<and> (\<exists>g'. add_interest g U x = Inr g'
                    \<and> length (member_edges g' i) = length (member_edges g i) + 1
                    \<and> community_of g' i \<in> set (community_records g' m)))"
proof -
  have wf: "wf_graph g"
    using assms by (rule wf_graph_run)
  have 0: "find_communities g m
           = (if int64 m then Inr (community_records g m) else Inl OverflowError)"
    by (simp add: find_communities_def)
  have 1: "(community_of g i \<in> set (community_records g m)
               \<longleftrightarrow> m \<le> int (length (member_edges g i)))
            \<and> interest (community_of g i) = name_of (nodes g ! i)
            \<and> csize (community_of g i) = length (member_edges g i)
            \<and> (distinct (map src (member_edges g i))
                 \<longrightarrow> length (member_edges g i) = card (interest_users g i))"
    if "i \<in> interest_nodes g" for i
  proof -
    have "length (member_edges g i) = card (interest_users g i)"
      if "distinct (map src (member_edges g i))"
      using distinct_card [OF that] by (simp add: interest_users_def)
    then show ?thesis
      using community_listed_iff [OF assms that] by (simp add: community_of_eq [OF that])
  qed
  have 2: "set (community_records g m) \<subseteq> community_of g ` interest_nodes g"
    unfolding community_records_set [OF assms] by blast
  have 3: "distinct (map interest (community_records g m))"
    using assms by (rule community_records_distinct)
  have 4: "sorted_wrt (\<lambda>a b. csize b \<le> csize a) (community_records g m)"
    unfolding community_records_def by (rule order_by_desc_sorted)
  have 5: "community_of g i \<notin> set (community_records g m)
              \<and> (\<exists>g'. add_interest g U x = Inr g'
                    \<and> length (member_edges g' i) = length (member_edges g i) + 1
                    \<and> community_of g' i \<in> set (community_records g' m))"
    if h: "match_user g U = [u]" "match_interest g x = [i]"
      "int (length (member_edges g i)) = m - 1" for U u x i
  proof -
    have i: "i \<in> interest_nodes g"
      using match_interest_bound [of i g x] h(2) by (simp add: interest_nodes_def)
    have out: "community_of g i \<notin> set (community_records g m)"
      using community_listed_iff [OF assms i, of m] h(3) by simp
    from add_member [OF wf h(1,2), of i] obtain g' where g': "add_interest g U x = Inr g'"
        "nodes g' = nodes g"
        "member_edges g' i = member_edges g i @ [\<lparr>src = u, kind = INTERESTED_IN, dst = i\<rparr>]"
      by auto
    have r': "run empty_graph (cs @ [AddInterest U x]) = Inr g'"
      using assms g'(1) by (simp add: run_snoc)
    have i': "i \<in> interest_nodes g'"
      using i g'(2) by (simp add: interest_nodes_def)
    have "community_of g' i \<in> set (community_records g' m)"
      using community_listed_iff [OF r' i', of m] h(3) g'(3) by simp
    with out g' show ?thesis
      by simp
  qed
  from 0 1 2 3 4 5 show ?thesis
    by blast
qed

theorem communities_by_membership_count_example:
  "run empty_graph hikers_calls = Inr hikers
   \<and> 3 \<in> interest_nodes hikers \<and> length (member_edges hikers 3) = 2
   \<and> match_user hikers ''carol'' = [2] \<and> match_interest hikers ''hiking'' = [3]
   \<and> community_of hikers 3 \<notin> set (community_records hikers 3)
   \<and> community_of hikers 3 \<in> set (community_records hikers 2)
   \<and> (\<exists>g'. add_interest hikers ''carol'' ''hiking'' = Inr g'
          \<and> length (member_edges g' 3) = 3
          \<and> community_of g' 3 \<in> set (community_records g' 3))"
proof -
  have i: "3 \<in> interest_nodes hikers"
    unfolding interest_nodes_def by (simp add: hikers_def)
  have l: "length (member_edges hikers 3) = 2"
    by code_simp
  have m: "match_user hikers ''carol'' = [2]" "match_interest hikers ''hiking'' = [3]"
    by code_simp+
  note t = communities_by_membership_count [OF run_hikers]
  from t [of 2] i l have a: "community_of hikers 3 \<in> set (community_records hikers 2)"
    by simp
  from t [of 3] have "match_user hikers ''carol'' = [2] \<and> match_interest hikers ''hiking'' = [3]
              \<and> int (length (member_edges hikers 3)) = 3 - 1
            \<longrightarrow> community_of hikers 3 \<notin> set (community_records hikers 3)
              \<and> (\<exists>g'. add_interest hikers ''carol'' ''hiking'' = Inr g'
                    \<and> length (member_edges g' 3) = length (member_edges hikers 3) + 1
                    \<and> community_of g' 3 \<in> set (community_records g' 3))"
    by blast
  with m l have "community_of hikers 3 \<notin> set (community_records hikers 3)
              \<and> (\<exists>g'. add_interest hikers ''carol'' ''hiking'' = Inr g'
                    \<and> length (member_edges g' 3) = 3
                    \<and> community_of g' 3 \<in> set (community_records g' 3))"
    by simp
  with run_hikers i l m a show ?thesis
    by simp
qed

text \<open>
  C6 where a user holds an interest twice: \<open>alice\<close> alone holds \<open>hiking\<close>, so the
  incident user set of the interest has one element and the claim excludes it at
  threshold 2; \<open>find_communities\<close> counts a row for each of her two relationships, where
  the other queries count \<open>DISTINCT\<close>, and lists the interest with size 2 and \<open>alice\<close>
  twice among the members.
\<close>

theorem communities_count_repeated_member:
  "run empty_graph keen_calls = Inr keen
   \<and> interest_users keen 1 = {0}
   \<and> find_communities keen 2
       = Inr [\<lparr>interest = ''hiking'', csize = 2,
               members = [''Alice Johnson'', ''Alice Johnson'']\<rparr>]"
proof -
  have "member_edges keen 1 = [\<lparr>src = 0, kind = INTERESTED_IN, dst = 1\<rparr>,
               \<lparr>src = 0, kind = INTERESTED_IN, dst = 1\<rparr>]"
    by code_simp
  then have "interest_users keen 1 = {0}"
    by (simp add: interest_users_def)
  moreover have "find_communities keen 2
       = Inr [\<lparr>interest = ''hiking'', csize = 2,
               members = [''Alice Johnson'', ''Alice Johnson'']\<rparr>]"
    by code_simp
  ultimately show ?thesis
    using run_keen by simp
qed

section \<open>Breadth-first search\<close>

lemma friend_adj_linked: "w \<in> set (friend_adj g v) \<longleftrightarrow> linked g v w"
proof
  assume "w \<in> set (friend_adj g v)"
  then obtain e where e: "e \<in> set (edges g)" "is_FRIENDS_WITH (kind e)" "src e = v \<or> dst e = v"
      "w = (if src e = v then dst e else src e)"
    by (auto simp: friend_adj_def split: if_splits)
  show "linked g v w"
  proof (cases "src e = v")
    case True
    with e have "has_friend g v w"
      unfolding has_friend_iff by auto
    then show ?thesis by (simp add: linked_def)
  next
    case False
    with e have "has_friend g w v"
      unfolding has_friend_iff by auto
    then show ?thesis by (simp add: linked_def)
  qed
next
  assume "linked g v w"
  then consider "has_friend g v w" | "has_friend g w v"
    by (auto simp: linked_def)
  then show "w \<in> set (friend_adj g v)"
  proof cases
    case 1
    then obtain e where "e \<in> set (edges g)" "src e = v" "dst e = w" "is_FRIENDS_WITH (kind e)"
      by (auto simp: has_friend_iff)
    then show ?thesis
      by (force simp: friend_adj_def)
  next
    case 2
    then obtain e where "e \<in> set (edges g)" "src e = w" "dst e = v" "is_FRIENDS_WITH (kind e)"
      by (auto simp: has_friend_iff)
    then show ?thesis
      by (force simp: friend_adj_def)
  qed
qed

lemma walk_snoc: "walk g (q @ [w]) \<longleftrightarrow> q = [] \<or> (walk g q \<and> linked g (last q) w)"
proof (induction q rule: walk.induct)
  case (1 g)
  show ?case by simp
next
  case (2 g v)
  show ?case by simp
next
  case (3 g v u p)
  then show ?case by auto
qed

lemma walk_ne: "walk g q \<Longrightarrow> q \<noteq> []"
  by auto

lemma within_0: "within g a 0 = {a}"
proof -
  have "length q = Suc 0 \<longleftrightarrow> (\<exists>v. q = [v])" for q :: "nat list"
    by (cases q) auto
  moreover have "walk g [a] \<and> hd [a] = a \<and> last [a] = a"
    by simp
  ultimately show ?thesis
    unfolding within_def by (auto intro: exI [of _ "[a]"])
qed

lemma within_Suc: "within g a (Suc k) = {w. \<exists>v \<in> within g a k. linked g v w}"
proof (intro equalityI subsetI)
  fix w assume "w \<in> within g a (Suc k)"
  then obtain q where q: "walk g q" "hd q = a" "last q = w" "length q = Suc (Suc k)"
    by (auto simp: within_def)
  then have qne: "q \<noteq> []" by auto
  let ?b = "butlast q"
  have split: "q = ?b @ [w]"
    using qne q(3) by (metis append_butlast_last_id)
  have bne: "?b \<noteq> []"
    using q(4) by (cases q) auto
  from q(1) have "walk g (?b @ [w])"
    using split by simp
  then have wb: "walk g ?b" "linked g (last ?b) w"
    using bne by (simp_all add: walk_snoc)
  have "hd ?b = a"
    using bne q(2) split by (metis hd_append2)
  moreover have "length ?b = Suc k"
    using q(4) by simp
  ultimately have "last ?b \<in> within g a k"
    using wb(1) by (auto simp: within_def)
  with wb(2) show "w \<in> {w. \<exists>v \<in> within g a k. linked g v w}"
    by blast
next
  fix w assume "w \<in> {w. \<exists>v \<in> within g a k. linked g v w}"
  then obtain v q where v: "linked g v w" and q: "walk g q" "hd q = a" "last q = v" "length q = Suc k"
    by (auto simp: within_def)
  then have qne: "q \<noteq> []" by auto
  have "walk g (q @ [w])"
    using q v by (simp add: walk_snoc)
  moreover have "hd (q @ [w]) = a" "last (q @ [w]) = w" "length (q @ [w]) = Suc (Suc k)"
    using qne q by simp_all
  ultimately show "w \<in> within g a (Suc k)"
    unfolding within_def by blast
qed

lemma expand_paths:
  "q \<in> set (expand g seen level) \<Longrightarrow>
     \<exists>p w. q = w # p \<and> p \<in> set level \<and> w \<in> set (friend_adj g (hd p))"
proof (induction level arbitrary: seen)
  case Nil
  then show ?case by simp
next
  case (Cons p ps)
  let ?ws = "remdups [w \<leftarrow> friend_adj g (hd p). w \<notin> set seen]"
  from Cons.prems consider "q \<in> (\<lambda>w. w # p) ` set ?ws" | "q \<in> set (expand g (seen @ ?ws) ps)"
    by (auto simp: Let_def)
  then show ?case
  proof cases
    case 1
    then show ?thesis by auto
  next
    case 2
    from Cons.IH [OF this] show ?thesis by auto
  qed
qed

lemma expand_heads:
  "hd ` set (expand g seen level) = (\<Union>p \<in> set level. set (friend_adj g (hd p))) - set seen"
proof (induction level arbitrary: seen)
  case Nil
  show ?case by simp
next
  case (Cons p ps)
  let ?ws = "remdups [w \<leftarrow> friend_adj g (hd p). w \<notin> set seen]"
  have "hd ` set (expand g seen (p # ps))
          = hd ` (\<lambda>w. w # p) ` set ?ws \<union> hd ` set (expand g (seen @ ?ws) ps)"
    by (simp add: Let_def image_Un)
  also have "hd ` (\<lambda>w. w # p) ` set ?ws = set (friend_adj g (hd p)) - set seen"
    by (auto simp: image_iff)
  also have "hd ` set (expand g (seen @ ?ws) ps)
          = (\<Union>p \<in> set ps. set (friend_adj g (hd p))) - set (seen @ ?ws)"
    by (rule Cons.IH)
  finally show ?case
    by auto
qed

lemma find_None_heads: "find (\<lambda>p. hd p = t) level = None \<longleftrightarrow> t \<notin> hd ` set level"
  by (auto simp: find_None_iff)

lemma level_adjacent:
  assumes "hd ` set level = within g a k - (\<Union>j < k. within g a j)"
    and "set seen = (\<Union>j \<le> k. within g a j)"
  shows "(\<Union>p \<in> set level. set (friend_adj g (hd p))) - set seen
           = within g a (Suc k) - (\<Union>j \<le> k. within g a j)"
proof (intro equalityI subsetI)
  fix w assume w: "w \<in> (\<Union>p \<in> set level. set (friend_adj g (hd p))) - set seen"
  then obtain p where "p \<in> set level" "linked g (hd p) w"
    by (auto simp: friend_adj_linked)
  moreover from this assms(1) have "hd p \<in> within g a k"
    by blast
  ultimately have "w \<in> within g a (Suc k)"
    unfolding within_Suc by blast
  with w assms(2) show "w \<in> within g a (Suc k) - (\<Union>j \<le> k. within g a j)"
    by simp
next
  fix w assume w: "w \<in> within g a (Suc k) - (\<Union>j \<le> k. within g a j)"
  then obtain v where v: "v \<in> within g a k" "linked g v w"
    unfolding within_Suc by blast
  have "v \<notin> (\<Union>j < k. within g a j)"
  proof
    assume "v \<in> (\<Union>j < k. within g a j)"
    then obtain j where j: "j < k" "v \<in> within g a j"
      by blast
    with v(2) have "w \<in> within g a (Suc j)"
      unfolding within_Suc by blast
    moreover have "Suc j \<le> k"
      using j(1) by simp
    ultimately show False
      using w by blast
  qed
  with v(1) assms(1) obtain p where "p \<in> set level" "hd p = v"
    by (metis (no_types, lifting) DiffI imageE)
  with v(2) have "w \<in> (\<Union>p \<in> set level. set (friend_adj g (hd p)))"
    by (auto simp: friend_adj_linked)
  with w assms(2) show "w \<in> (\<Union>p \<in> set level. set (friend_adj g (hd p))) - set seen"
    by simp
qed

lemma bfs_inv_step:
  assumes "bfs_inv g a t k seen level" "find (\<lambda>p. hd p = t) level = None"
  shows "bfs_inv g a t (Suc k) (seen @ map hd (expand g seen level)) (expand g seen level)"
proof -
  let ?nxt = "expand g seen level"
  from assms(1) have paths: "\<forall>p \<in> set level. walk g (rev p) \<and> hd (rev p) = a \<and> length p = Suc k"
    and seen: "set seen = (\<Union>j \<le> k. within g a j)"
    and heads: "hd ` set level = within g a k - (\<Union>j < k. within g a j)"
    and far: "t \<notin> (\<Union>j < k. within g a j)"
    by (simp_all add: bfs_inv_def)
  have nh: "hd ` set ?nxt = within g a (Suc k) - (\<Union>j \<le> k. within g a j)"
    unfolding expand_heads by (rule level_adjacent [OF heads seen])
  have 1: "walk g (rev q) \<and> hd (rev q) = a \<and> length q = Suc (Suc k)" if "q \<in> set ?nxt" for q
  proof -
    from expand_paths [OF that] obtain p w where q: "q = w # p" "p \<in> set level"
        "w \<in> set (friend_adj g (hd p))"
      by blast
    with paths have p: "walk g (rev p)" "hd (rev p) = a" "length p = Suc k"
      by simp_all
    then have pne: "p \<noteq> []" by auto
    have "last (rev p) = hd p"
      using pne by (simp add: last_rev)
    with q(3) p(1) have "walk g (rev p @ [w])"
      by (simp add: walk_snoc friend_adj_linked)
    moreover have "hd (rev p @ [w]) = a"
      using pne p(2) by simp
    ultimately show ?thesis
      using q(1) p(3) by simp
  qed
  have lessSuc: "(\<Union>j < Suc k. within g a j) = (\<Union>j \<le> k. within g a j)"
    by (simp add: lessThan_Suc_atMost)
  have 2: "set (seen @ map hd ?nxt) = (\<Union>j \<le> Suc k. within g a j)"
    unfolding set_append set_map nh seen by (auto simp: atMost_Suc)
  have 3: "hd ` set ?nxt = within g a (Suc k) - (\<Union>j < Suc k. within g a j)"
    unfolding lessSuc by (rule nh)
  have "t \<notin> hd ` set level"
    using assms(2) by (simp add: find_None_heads)
  with heads far have "t \<notin> within g a k"
    by blast
  with far have 4: "t \<notin> (\<Union>j < Suc k. within g a j)"
    by (auto simp: less_Suc_eq)
  from 1 2 3 4 show ?thesis
    unfolding bfs_inv_def by blast
qed

lemma within_closed:
  assumes "within g a (Suc k) \<subseteq> (\<Union>j \<le> k. within g a j)"
  shows "within g a m \<subseteq> (\<Union>j \<le> k. within g a j)"
proof (induction m)
  case 0
  have "a \<in> within g a 0"
    by (simp add: within_0)
  then have "a \<in> (\<Union>j \<le> k. within g a j)"
    by (intro UN_I [of 0]) simp_all
  then show ?case
    by (simp add: within_0)
next
  case (Suc m)
  show ?case
  proof
    fix w assume "w \<in> within g a (Suc m)"
    then obtain v where v: "v \<in> within g a m" "linked g v w"
      unfolding within_Suc by blast
    with Suc obtain j where j: "j \<le> k" "v \<in> within g a j"
      by blast
    with v(2) have w: "w \<in> within g a (Suc j)"
      unfolding within_Suc by blast
    show "w \<in> (\<Union>j \<le> k. within g a j)"
    proof (cases "j = k")
      case True
      with w assms show ?thesis by blast
    next
      case False
      with j(1) have "Suc j \<le> k" by simp
      with w show ?thesis by blast
    qed
  qed
qed

lemma bfs_inv_stuck:
  assumes "bfs_inv g a t k seen level" "find (\<lambda>p. hd p = t) level = None"
    and "expand g seen level = []"
  shows "t \<notin> within g a m"
proof -
  from bfs_inv_step [OF assms(1,2)] have inv: "bfs_inv g a t (Suc k) seen []"
    using assms(3) by simp
  then have "within g a (Suc k) \<subseteq> (\<Union>j < Suc k. within g a j)"
    and far: "t \<notin> (\<Union>j < Suc k. within g a j)"
    by (simp_all add: bfs_inv_def)
  then have "within g a (Suc k) \<subseteq> (\<Union>j \<le> k. within g a j)"
    by (simp add: lessThan_Suc_atMost)
  from within_closed [OF this, of m] far show ?thesis
    by (auto simp: lessThan_Suc_atMost)
qed

lemma bfs_inv_found:
  assumes "bfs_inv g a t k seen level" "find (\<lambda>p. hd p = t) level = Some p"
  shows "walk g (rev p) \<and> hd (rev p) = a \<and> last (rev p) = t
       \<and> (\<forall>j. t \<in> within g a j \<longrightarrow> length (rev p) \<le> Suc j)"
proof -
  from assms(2) have p: "p \<in> set level" "hd p = t"
    by (auto simp: find_Some_iff)
  with assms(1) have w: "walk g (rev p)" "hd (rev p) = a" "length p = Suc k"
    and far: "t \<notin> (\<Union>j < k. within g a j)"
    by (simp_all add: bfs_inv_def)
  then have "p \<noteq> []" by auto
  then have "last (rev p) = t"
    using p(2) by (simp add: last_rev)
  moreover have "k \<le> j" if "t \<in> within g a j" for j
    using far that by (meson UN_I lessThan_iff not_le_imp_less)
  ultimately show ?thesis
    using w by simp
qed

lemma bfs_correct:
  "bfs_inv g a t k seen level \<Longrightarrow>
   (case bfs g t seen level of
      None \<Rightarrow> \<forall>m. t \<notin> within g a m
    | Some q \<Rightarrow> walk g q \<and> hd q = a \<and> last q = t
                 \<and> (\<forall>j. t \<in> within g a j \<longrightarrow> length q \<le> Suc j))"
proof (induction g t seen level arbitrary: k rule: bfs.induct)
  case (1 g t seen level)
  show ?case
  proof (cases "find (\<lambda>p. hd p = t) level")
    case (Some p)
    have eq: "bfs g t seen level = Some (rev p)"
      by (subst bfs.simps) (simp add: Some)
    from bfs_inv_found [OF "1.prems" Some] show ?thesis
      by (simp add: eq)
  next
    case None
    show ?thesis
    proof (cases "expand g seen level = []")
      case True
      have eq: "bfs g t seen level = None"
        by (subst bfs.simps) (simp add: None True)
      from bfs_inv_stuck [OF "1.prems" None True] show ?thesis
        by (simp add: eq)
    next
      case False
      have eq: "bfs g t seen level
                  = bfs g t (seen @ map hd (expand g seen level)) (expand g seen level)"
        by (subst bfs.simps) (simp add: None False Let_def)
      have "bfs_inv g a t (Suc k) (seen @ map hd (expand g seen level)) (expand g seen level)"
        using "1.prems" None by (rule bfs_inv_step)
      from "1.IH" [OF None refl False this] show ?thesis
        by (simp add: eq)
    qed
  qed
qed

section \<open>Shortest connection paths\<close>

lemma bfs_inv_start: "bfs_inv g a t 0 [a] [[a]]"
  by (simp add: bfs_inv_def within_0)

lemma within_walk: "(\<exists>m. t \<in> within g a m) \<longleftrightarrow> (\<exists>q. walk g q \<and> hd q = a \<and> last q = t)"
proof
  assume "\<exists>m. t \<in> within g a m"
  then show "\<exists>q. walk g q \<and> hd q = a \<and> last q = t"
    by (auto simp: within_def)
next
  assume "\<exists>q. walk g q \<and> hd q = a \<and> last q = t"
  then obtain q where q: "walk g q" "hd q = a" "last q = t"
    by blast
  then have "q \<noteq> []" by auto
  then have "length q = Suc (length q - 1)" by simp
  with q have "t \<in> within g a (length q - 1)"
    unfolding within_def by blast
  then show "\<exists>m. t \<in> within g a m" ..
qed

lemma shortest_path_names_none:
  "shortest_path_names g a b = [] \<longleftrightarrow> \<not> (\<exists>q. walk g q \<and> hd q = a \<and> last q = b)"
proof (cases "bfs g b [a] [[a]]")
  case None
  with bfs_correct [OF bfs_inv_start [of g a b]] have "\<forall>m. b \<notin> within g a m"
    by simp
  then have "\<not> (\<exists>q. walk g q \<and> hd q = a \<and> last q = b)"
    using within_walk [where t = b and g = g and a = a] by blast
  with None show ?thesis
    by (simp add: shortest_path_names_def)
next
  case (Some p)
  with bfs_correct [OF bfs_inv_start [of g a b]] have "walk g p \<and> hd p = a \<and> last p = b"
    by simp
  with Some show ?thesis
    by (auto simp: shortest_path_names_def)
qed

lemma shortest_path_names_some:
  assumes "shortest_path_names g a b = names # rest"
  shows "rest = [] \<and> (\<exists>p. names = map (\<lambda>v. name_of (nodes g ! v)) p
            \<and> walk g p \<and> hd p = a \<and> last p = b
            \<and> (\<forall>q. walk g q \<and> hd q = a \<and> last q = b \<longrightarrow> length p \<le> length q))"
proof -
  from assms obtain p where p: "bfs g b [a] [[a]] = Some p"
      "names = map (\<lambda>v. name_of (nodes g ! v)) p" "rest = []"
    by (auto simp: shortest_path_names_def split: option.splits)
  with bfs_correct [OF bfs_inv_start [of g a b]]
  have w: "walk g p" "hd p = a" "last p = b"
    and least: "\<forall>j. b \<in> within g a j \<longrightarrow> length p \<le> Suc j"
    by simp_all
  have "length p \<le> length q" if "walk g q \<and> hd q = a \<and> last q = b" for q
  proof -
    from that have "q \<noteq> []" by auto
    then have l: "length q = Suc (length q - 1)" by simp
    with that have "b \<in> within g a (length q - 1)"
      unfolding within_def by blast
    with least l show ?thesis
      by (metis)
  qed
  with p w show ?thesis
    by blast
qed

lemma shortest_connection_distinct:
  assumes "match_user g U1 = [a]" "match_user g U2 = [b]" "a \<noteq> b"
  shows "find_shortest_connection_path f g U1 U2
           = (case shortest_path_names g a b of [] \<Rightarrow> Inr None | r # rest \<Rightarrow> Inr (Some r))"
  using assms by (simp add: find_shortest_connection_path_def friendship_rows_def)

text \<open>
  C2, as the code has it. When either id names no user, \<open>find_shortest_connection_path\<close>
  returns no path. When the two ids name two different nodes, it raises nothing; it
  returns no path exactly when no walk over the undirected \<open>FRIENDS_WITH\<close> relation joins
  the two nodes; and a path it returns lists the names along a walk from the first node
  to the second that is no longer than any other such walk. This holds for either value
  of the server setting.
\<close>

theorem shortest_connection_path_minimal:
  "(match_user g U1 = [] \<or> match_user g U2 = []
      \<longrightarrow> find_shortest_connection_path f g U1 U2 = Inr None)
   \<and> (\<forall>a b. match_user g U1 = [a] \<and> match_user g U2 = [b] \<and> a \<noteq> b \<longrightarrow>
          (\<exists>r. find_shortest_connection_path f g U1 U2 = Inr r)
        \<and> (find_shortest_connection_path f g U1 U2 = Inr None
              \<longleftrightarrow> \<not> (\<exists>q. walk g q \<and> hd q = a \<and> last q = b))
        \<and> (\<forall>names. find_shortest_connection_path f g U1 U2 = Inr (Some names) \<longrightarrow>
              (\<exists>p. names = map (\<lambda>v. name_of (nodes g ! v)) p
                  \<and> walk g p \<and> hd p = a \<and> last p = b
                  \<and> (\<forall>q. walk g q \<and> hd q = a \<and> last q = b \<longrightarrow> length p \<le> length q))))"
proof (intro conjI allI impI)
  assume "match_user g U1 = [] \<or> match_user g U2 = []"
  then have "friendship_rows g U1 U2 = []"
    by (auto simp: friendship_rows_def)
  then show "find_shortest_connection_path f g U1 U2 = Inr None"
    by (simp add: find_shortest_connection_path_def)
next
  fix a b assume h: "match_user g U1 = [a] \<and> match_user g U2 = [b] \<and> a \<noteq> b"
  then have eq: "find_shortest_connection_path f g U1 U2
           = (case shortest_path_names g a b of [] \<Rightarrow> Inr None | r # rest \<Rightarrow> Inr (Some r))"
    by (simp add: shortest_connection_distinct)
  show "\<exists>r. find_shortest_connection_path f g U1 U2 = Inr r"
    unfolding eq by (cases "shortest_path_names g a b") simp_all
  show "find_shortest_connection_path f g U1 U2 = Inr None
              \<longleftrightarrow> \<not> (\<exists>q. walk g q \<and> hd q = a \<and> last q = b)"
    unfolding eq shortest_path_names_none [symmetric]
    by (cases "shortest_path_names g a b") simp_all
  fix names assume "find_shortest_connection_path f g U1 U2 = Inr (Some names)"
  then obtain rest where "shortest_path_names g a b = names # rest"
    unfolding eq by (cases "shortest_path_names g a b") simp_all
  from shortest_path_names_some [OF this]
  show "\<exists>p. names = map (\<lambda>v. name_of (nodes g ! v)) p
                  \<and> walk g p \<and> hd p = a \<and> last p = b
                  \<and> (\<forall>q. walk g q \<and> hd q = a \<and> last q = b \<longrightarrow> length p \<le> length q)"
    by simp
qed

lemma run_chain: "run empty_graph chain_calls = Inr chain"
  by code_simp

lemma run_shortcut:
  "run empty_graph (chain_calls @ [AddFriendship ''a'' ''d'' (Some ''s'') ''t'']) = Inr shortcut"
  by code_simp

lemma chain_path: "find_shortest_connection_path True chain ''a'' ''d'' = Inr (Some [''A'', ''B'', ''C'', ''D''])"
  by code_simp

lemma shortcut_path: "find_shortest_connection_path True shortcut ''a'' ''d'' = Inr (Some [''A'', ''D''])"
  by code_simp


theorem shortest_connection_path_minimal_witness:
  "run empty_graph chain_calls = Inr chain
   \<and> match_user chain ''a'' = [0] \<and> match_user chain ''d'' = [3] \<and> match_user chain ''zed'' = []
   \<and> find_shortest_connection_path True chain ''a'' ''d'' = Inr (Some [''A'', ''B'', ''C'', ''D''])
   \<and> (\<exists>p. [''A'', ''B'', ''C'', ''D''] = map (\<lambda>v. name_of (nodes chain ! v)) p
          \<and> walk chain p \<and> hd p = 0 \<and> last p = 3 \<and> length p = 4)
   \<and> find_shortest_connection_path True chain ''a'' ''zed'' = Inr None
   \<and> find_shortest_connection_path True shortcut ''a'' ''d'' = Inr (Some [''A'', ''D''])"
proof -
  have m: "match_user chain ''a'' = [0]" "match_user chain ''d'' = [3]"
      "match_user chain ''zed'' = []"
    by code_simp+
  note t = shortest_connection_path_minimal [of chain]
  from t [of "''a''" "''zed''" True] m(3)
  have none: "find_shortest_connection_path True chain ''a'' ''zed'' = Inr None"
    by simp
  have pre: "match_user chain ''a'' = [0] \<and> match_user chain ''d'' = [3] \<and> (0::nat) \<noteq> 3"
    using m by simp
  note t2 = t [of "''a''" "''d''" True, THEN conjunct2, rule_format, of 0 3, OF pre]
  from t2 [THEN conjunct2, THEN conjunct2, rule_format, OF chain_path]
  obtain p where p: "[''A'', ''B'', ''C'', ''D''] = map (\<lambda>v. name_of (nodes chain ! v)) p"
      "walk chain p" "hd p = 0" "last p = 3"
    by (elim exE conjE) (rule that, assumption+)
  have "length (map (\<lambda>v. name_of (nodes chain ! v)) p) = length p"
    by simp
  with p(1) [symmetric] have l: "length p = 4"
    by simp
  have "[''A'', ''B'', ''C'', ''D''] = map (\<lambda>v. name_of (nodes chain ! v)) p
          \<and> walk chain p \<and> hd p = 0 \<and> last p = 3 \<and> length p = 4"
    by (intro conjI p l)
  then have "\<exists>p. [''A'', ''B'', ''C'', ''D''] = map (\<lambda>v. name_of (nodes chain ! v)) p
          \<and> walk chain p \<and> hd p = 0 \<and> last p = 3 \<and> length p = 4"
    by (rule exI)
  with run_chain m none chain_path shortcut_path show ?thesis
    by simp
qed

text \<open>
  The claim C2 as stated fails for a pair of equal ids: \<open>alice\<close> is known and trivially
  connected to herself, yet the call returns no path; it raises with the default
  setting and returns \<open>None\<close> with the other.
\<close>

theorem shortest_path_same_user_counterexample:
  "run empty_graph [CreateUser ''alice'' ''Alice Johnson'' 28 ''New York'' 0] = Inr one_user
   \<and> match_user one_user ''alice'' = [0]
   \<and> find_shortest_connection_path True one_user ''alice'' ''alice'' = Inl Neo4jError
   \<and> find_shortest_connection_path False one_user ''alice'' ''alice'' = Inr None"
  by code_simp

end
